theory Spec2Isabelle
  imports Main "HOL-Library.Word" "HOL-Library.AList"
begin

section \<open>Strings and formatting\<close>

text \<open>
  Go strings are byte sequences; they are modelled as \<open>string\<close> (a list of 8-bit
  characters).  The apostrophe and the quotation mark are written by their codes.
\<close>

definition apos :: char where
  "apos = CHR 0x27"

definition quot :: char where
  "quot = CHR 0x22"

subsection \<open>xmlSpecial and xmlEscape (client.go, lines 487-506)\<close>

definition xmlSpecial :: "char \<Rightarrow> string option" where
  "xmlSpecial c =
     (if c = CHR ''<'' then Some ''&lt;''
      else if c = CHR ''>'' then Some ''&gt;''
      else if c = quot then Some ''&quot;''
      else if c = apos then Some ''&apos;''
      else if c = CHR ''&'' then Some ''&amp;''
      else None)"

text \<open>
  The loop \<^verbatim>\<open>for i := 0; i < len(s); i++\<close> with the buffer \<open>b\<close>: the byte at index
  \<open>i\<close> is looked up in \<open>xmlSpecial\<close>; the entity or the byte itself is appended.
\<close>

function xmlEscape_loop :: "string \<Rightarrow> nat \<Rightarrow> string \<Rightarrow> string" where
  "xmlEscape_loop s i b =
     (if i < length s then
        (let c = s ! i in
         case xmlSpecial c of
           Some e \<Rightarrow> xmlEscape_loop s (i + 1) (b @ e)
         | None \<Rightarrow> xmlEscape_loop s (i + 1) (b @ [c]))
      else b)"
  by pat_completeness auto
termination
  by (relation "measure (\<lambda>(s, i, b). length s - i)") auto

declare xmlEscape_loop.simps [simp del]

definition xmlEscape :: "string \<Rightarrow> string" where
  "xmlEscape s = xmlEscape_loop s 0 []"

text \<open>
  The claim's wording of the same function: every byte is replaced by its named entity
  when it is one of the five special bytes, and kept otherwise.
\<close>

definition entity_of :: "char \<Rightarrow> string" where
  "entity_of c =
     (if c = CHR ''<'' then ''&lt;''
      else if c = CHR ''>'' then ''&gt;''
      else if c = quot then ''&quot;''
      else if c = apos then ''&apos;''
      else if c = CHR ''&'' then ''&amp;''
      else [c])"

definition replace_specials :: "string \<Rightarrow> string" where
  "replace_specials s = concat (map entity_of s)"

text \<open>
  Un-escaping, as the claim means it: the inverse replacement of the five named entities
  by their bytes, scanning from the left.  The repository has no such function (the
  decoder of encoding/xml does it on the peer's side).
\<close>

fun xmlUnescape :: "string \<Rightarrow> string" where
  "xmlUnescape [] = []"
| "xmlUnescape (c # cs) =
     (if c = CHR ''&'' \<and> take 3 cs = ''lt;'' then CHR ''<'' # xmlUnescape (drop 3 cs)
      else if c = CHR ''&'' \<and> take 3 cs = ''gt;'' then CHR ''>'' # xmlUnescape (drop 3 cs)
      else if c = CHR ''&'' \<and> take 5 cs = ''quot;'' then quot # xmlUnescape (drop 5 cs)
      else if c = CHR ''&'' \<and> take 5 cs = ''apos;'' then apos # xmlUnescape (drop 5 cs)
      else if c = CHR ''&'' \<and> take 4 cs = ''amp;'' then CHR ''&'' # xmlUnescape (drop 4 cs)
      else c # xmlUnescape cs)"

subsection \<open>Formatting helpers\<close>

text \<open>
  The format strings of the source put every attribute value between apostrophes:
  \<open>sq v\<close> is \<^verbatim>\<open>'v'\<close>.
\<close>

definition sq :: "string \<Rightarrow> string" where
  "sq v = [apos] @ v @ [apos]"

text \<open>\<^verbatim>\<open>fmt.Sprintf("%d", id)\<close> for an unsigned operand: the decimal digits, most
  significant first, no sign and no leading zero.\<close>

definition digit_char :: "nat \<Rightarrow> char" where
  "digit_char d = ''0123456789'' ! d"

fun decimal :: "nat \<Rightarrow> string" where
  "decimal n = (if n < 10 then [digit_char n] else decimal (n div 10) @ [digit_char (n mod 10)])"

declare decimal.simps [simp del]

subsection \<open>base64.StdEncoding.EncodeToString\<close>

text \<open>
  The standard alphabet with padding (RFC 4648): three bytes give four characters; a
  final group of one or two bytes is padded with \<open>=\<close>.
\<close>

definition encodeStd :: string where
  "encodeStd = ''ABCDEFGHIJKLMNOPQRSTUVWXYZabcdefghijklmnopqrstuvwxyz0123456789+/''"

definition b64 :: "nat \<Rightarrow> char" where
  "b64 i = encodeStd ! i"

fun EncodeToString :: "string \<Rightarrow> string" where
  "EncodeToString (a # b # c # r) =
     (let x = (of_char a :: nat); y = (of_char b :: nat); z = (of_char c :: nat) in
      [b64 (x div 4), b64 ((x mod 4) * 16 + y div 16), b64 ((y mod 16) * 4 + z div 64),
       b64 (z mod 64)] @ EncodeToString r)"
| "EncodeToString [a, b] =
     (let x = (of_char a :: nat); y = (of_char b :: nat) in
      [b64 (x div 4), b64 ((x mod 4) * 16 + y div 16), b64 ((y mod 16) * 4), CHR ''=''])"
| "EncodeToString [a] =
     (let x = (of_char a :: nat) in
      [b64 (x div 4), b64 ((x mod 4) * 16), CHR ''='', CHR ''=''])"
| "EncodeToString [] = []"

section \<open>Data model (client.go, lines 179-263)\<close>

subsection \<open>encoding/xml values\<close>

datatype Name = XName (Space: string) (Local: string)

datatype Attr = XAttr (AName: Name) (Value: string)

datatype StartElement = XStart (EName: Name) (Attrs: "Attr list")

text \<open>The tokens of \<^verbatim>\<open>xml.Decoder.Token\<close>; comments, processing instructions and
  directives are one constructor, the router treats them alike.\<close>

datatype Token =
    StartElementT StartElement
  | EndElementT Name
  | CharData string
  | OtherToken

subsection \<open>Stanzas\<close>

datatype Header = Header (From: string) (Id': string) (To: string) (Type: string)

datatype Error = Error (Code: string) (EType: string) (Any: Name) (Text: string)

datatype streamError = streamError (SAny: Name) (SText: string)

datatype Message =
  Message (MHeader: Header) (Subject: string) (Body: string) (Thread: string)

datatype Presence =
  Presence (PHeader: Header) (Lang: string) (Show: string) (Status: string)
    (Priority: int) (PError: "Error option")

datatype IQ = IQ (IHeader: Header) (IError: "Error option") (Query: Name) (Inner: string)

text \<open>
  The interface \<^verbatim>\<open>Stanza\<close> with the types that implement it: the five pointer types the
  router allocates, the nil interface value (the router's \<^verbatim>\<open>default\<close> branch leaves
  \<^verbatim>\<open>nv\<close> nil) and \<^verbatim>\<open>*AuthorizationRequest\<close> of package rfc6121.
\<close>

datatype Stanza =
    NilStanza
  | StreamErrorS streamError
  | MessageS Message
  | PresenceS Presence
  | IQS IQ
  | ErrorS Error
  | AuthorizationRequestS Presence

definition ID :: "Header \<Rightarrow> string" where
  "ID h = Id' h"

definition zeroHeader :: Header where
  "zeroHeader = Header [] [] [] []"

definition zeroName :: Name where
  "zeroName = XName [] []"

subsection \<open>Namespaces (client.go, lines 26-33)\<close>

definition nsStream :: string where
  "nsStream = ''http://etherx.jabber.org/streams''"

definition nsClient :: string where
  "nsClient = ''jabber:client''"

subsection \<open>Channels\<close>

text \<open>
  A Go channel: capacity, buffered values (oldest first), the number of goroutines
  blocked in a receive, the values handed directly to such receivers, and the closed
  flag.  A send can proceed at once when a receiver waits or the buffer has room.
\<close>

record 'a chan =
  cap :: nat
  buf :: "'a list"
  recvq :: nat
  handed :: "'a list"
  closed :: bool

definition make_chan :: "nat \<Rightarrow> 'a chan" where
  "make_chan n = \<lparr>cap = n, buf = [], recvq = 0, handed = [], closed = False\<rparr>"

definition room :: "'a chan \<Rightarrow> nat" where
  "room k = recvq k + (cap k - length (buf k))"

definition ready :: "'a chan \<Rightarrow> bool" where
  "ready k = (0 < recvq k \<or> length (buf k) < cap k)"

definition deliver :: "'a \<Rightarrow> 'a chan \<Rightarrow> 'a chan" where
  "deliver v k =
     (if 0 < recvq k then k\<lparr>recvq := recvq k - 1, handed := handed k @ [v]\<rparr>
      else k\<lparr>buf := buf k @ [v]\<rparr>)"

text \<open>
  Abnormal ends of a call: the goroutine cannot go on by itself (it waits for another
  goroutine to receive from a channel or to release the mutex), or one of the run-time
  panics.
\<close>

datatype panic = SendOnClosedChannel | CloseOfClosedChannel | CloseOfNilChannel
  | NilDereference | UnlockOfUnlockedMutex

datatype fault = Blocked | Panic panic

text \<open>
  Channels live in a store, a list indexed by address; an address outside the store is
  the nil channel.  \<open>chan_send\<close> is the statement \<^verbatim>\<open>ch <- v\<close>, \<open>chan_try_send\<close> is
  \<^verbatim>\<open>select { case ch <- v: default: }\<close>, \<open>chan_close\<close> is \<^verbatim>\<open>close(ch)\<close>.
\<close>

definition chan_send :: "nat \<Rightarrow> 'a \<Rightarrow> 'a chan list \<Rightarrow> fault + 'a chan list" where
  "chan_send ch v h =
     (if \<not> ch < length h then Inl Blocked
      else if closed (h ! ch) then Inl (Panic SendOnClosedChannel)
      else if ready (h ! ch) then Inr (h[ch := deliver v (h ! ch)])
      else Inl Blocked)"

definition chan_try_send :: "nat \<Rightarrow> 'a \<Rightarrow> 'a chan list \<Rightarrow> fault + 'a chan list" where
  "chan_try_send ch v h =
     (if \<not> ch < length h then Inr h
      else if closed (h ! ch) then Inl (Panic SendOnClosedChannel)
      else if ready (h ! ch) then Inr (h[ch := deliver v (h ! ch)])
      else Inr h)"

definition chan_close :: "nat \<Rightarrow> 'a chan list \<Rightarrow> fault + 'a chan list" where
  "chan_close ch h =
     (if \<not> ch < length h then Inl (Panic CloseOfNilChannel)
      else if closed (h ! ch) then Inl (Panic CloseOfClosedChannel)
      else Inr (h[ch := (h ! ch)\<lparr>closed := True\<rparr>]))"

section \<open>The connection (package rfc6120)\<close>

text \<open>The values of Go's \<^verbatim>\<open>error\<close> that the modelled functions return.\<close>

datatype go_error = DecoderError | UnexpectedMessage string | UnsupportedVersion string

text \<open>
  The order of the operations on shared data inside one call is kept in a log: each
  operation on the mutex, on the callbacks map and on a reply channel appends its event.
\<close>

datatype event =
    EvLock
  | EvUnlock
  | EvMapInsert string nat
  | EvMapDelete string
  | EvChanSend nat IQ
  | EvChanClose nat

text \<open>
  The struct \<^verbatim>\<open>Connection\<close> (lines 89-104) together with what its pointers refer to.
  \<^item> \<open>mu\<close>: the embedded \<^verbatim>\<open>sync.Mutex\<close>, true while held.
  \<^item> \<open>wire\<close>, \<open>tcp_closed\<close>: the embedded \<^verbatim>\<open>net.Conn\<close>: the bytes passed to its
    \<^verbatim>\<open>Write\<close> so far, and whether its \<^verbatim>\<open>Close\<close> has been called.
  \<^item> \<open>decoder\<close>: the tokens the \<^verbatim>\<open>xml.Decoder\<close> has still to deliver; when they are
    used up \<^verbatim>\<open>Token\<close> returns an error (end of input or a syntax error).
  \<^item> \<open>features\<close>: Modelled from the spec: the type \<^verbatim>\<open>Features\<close> is declared outside
    client.go; the spec describes it as the advertised feature names, each with the
    flag of its \<^verbatim>\<open><required/>\<close> child.
  \<^item> \<open>cookie\<close>: the counter \<^verbatim>\<open>id\<close> of the goroutine \<^verbatim>\<open>generateCookies\<close> that feeds the
    channel \<^verbatim>\<open>c.cookie\<close>.
  \<^item> \<open>callbacks\<close>: the map from stanza id to reply channel, as an association list
    with one entry per key; its order stands for the order in which \<^verbatim>\<open>range\<close> visits it.
  \<^item> \<open>subscribers\<close>: the slice \<^verbatim>\<open>subscribers.chans\<close>.
  \<^item> \<open>iq_chans\<close>, \<open>stanza_chans\<close>: the stores of the channels of type \<^verbatim>\<open>chan *IQ\<close>
    and \<^verbatim>\<open>chan<- Stanza\<close>.
  \<^item> \<open>trace\<close>: the event log.
\<close>

record Connection =
  mu :: bool
  wire :: string
  tcp_closed :: bool
  user :: string
  host :: string
  decoder :: "Token list"
  features :: "(string \<times> bool) list"
  password :: string
  cookie :: "64 word"
  jid :: string
  callbacks :: "(string \<times> nat) list"
  closing :: bool
  subscribers :: "nat list"
  iq_chans :: "IQ chan list"
  stanza_chans :: "Stanza chan list"
  trace :: "event list"

text \<open>The connection value built by \<^verbatim>\<open>Dial\<close> (lines 133-145) over a fresh TCP connection
  whose peer will send the given tokens.\<close>

definition newConnection :: "string \<Rightarrow> string \<Rightarrow> string \<Rightarrow> Token list \<Rightarrow> Connection" where
  "newConnection u h p toks =
     \<lparr>mu = False, wire = [], tcp_closed = False, user = u, host = h, decoder = toks,
      features = [], password = p, cookie = 0, jid = [], callbacks = [], closing = False,
      subscribers = [], iq_chans = [], stanza_chans = [], trace = []\<rparr>"

subsection \<open>Mutex and transport\<close>

definition Lock :: "Connection \<Rightarrow> (fault + unit) \<times> Connection" where
  "Lock c =
     (if mu c then (Inl Blocked, c)
      else (Inr (), c\<lparr>mu := True, trace := trace c @ [EvLock]\<rparr>))"

definition Unlock :: "Connection \<Rightarrow> (fault + unit) \<times> Connection" where
  "Unlock c =
     (if mu c then (Inr (), c\<lparr>mu := False, trace := trace c @ [EvUnlock]\<rparr>)
      else (Inl (Panic UnlockOfUnlockedMutex), c))"

definition Write :: "string \<Rightarrow> Connection \<Rightarrow> Connection" where
  "Write bs c = c\<lparr>wire := wire c @ bs\<rparr>"

subsection \<open>subscribers.send and subscribers.subscribe (lines 72-87)\<close>

text \<open>The \<^verbatim>\<open>for _, ch := range s.chans\<close> loop with its non-blocking send.  The
  read-write mutex of the subscriber list is taken and released inside the call; the
  model has no other goroutine running meanwhile and leaves it out.\<close>

fun send_loop :: "nat list \<Rightarrow> Stanza \<Rightarrow> Stanza chan list \<Rightarrow> (fault + unit) \<times> Stanza chan list" where
  "send_loop [] stanza h = (Inr (), h)"
| "send_loop (ch # chs) stanza h =
     (case chan_try_send ch stanza h of
        Inl f \<Rightarrow> (Inl f, h)
      | Inr h' \<Rightarrow> send_loop chs stanza h')"

definition subscribers_send :: "Stanza \<Rightarrow> Connection \<Rightarrow> (fault + unit) \<times> Connection" where
  "subscribers_send stanza c =
     (case send_loop (subscribers c) stanza (stanza_chans c) of
        (r, h') \<Rightarrow> (r, c\<lparr>stanza_chans := h'\<rparr>))"

definition subscribers_subscribe :: "nat \<Rightarrow> Connection \<Rightarrow> Connection" where
  "subscribers_subscribe ch c = c\<lparr>subscribers := subscribers c @ [ch]\<rparr>"

definition EmitStanza :: "Stanza \<Rightarrow> Connection \<Rightarrow> (fault + unit) \<times> Connection" where
  "EmitStanza stanza c = subscribers_send stanza c"

definition SubscribeStanzas :: "nat \<Rightarrow> Connection \<Rightarrow> Connection" where
  "SubscribeStanzas ch c = subscribers_subscribe ch c"

definition JID :: "Connection \<Rightarrow> string" where
  "JID c = jid c"

subsection \<open>generateCookies and getCookie (lines 110-120, 314-316)\<close>

text \<open>
  \<open>generateCookies_loop n id'\<close>: the values the goroutine sends on its channel during
  \<open>n\<close> rounds of its loop that take the send case, when the counter is \<open>id'\<close> at the
  start (a \<^verbatim>\<open>uint64\<close>, so \<^verbatim>\<open>id++\<close> wraps); the goroutine starts it with
  \<^verbatim>\<open>id := uint64(0)\<close>.  Nothing in the package signals \<^verbatim>\<open>quit\<close>.
  \<open>getCookie\<close> receives the next value, after which the goroutine increments;
  \<open>getCookies n\<close> is \<open>n\<close> calls of it in a row.
\<close>

fun generateCookies_loop :: "nat \<Rightarrow> 64 word \<Rightarrow> string list" where
  "generateCookies_loop 0 id' = []"
| "generateCookies_loop (Suc n) id' = decimal (unat id') # generateCookies_loop n (id' + 1)"

definition generateCookies :: "nat \<Rightarrow> string list" where
  "generateCookies n = generateCookies_loop n 0"

definition getCookie :: "Connection \<Rightarrow> string \<times> Connection" where
  "getCookie c = (decimal (unat (cookie c)), c\<lparr>cookie := cookie c + 1\<rparr>)"

fun getCookies :: "nat \<Rightarrow> Connection \<Rightarrow> string list \<times> Connection" where
  "getCookies 0 c = ([], c)"
| "getCookies (Suc n) c =
     (case getCookie c of
        (x, c1) \<Rightarrow> (case getCookies n c1 of (xs, c2) \<Rightarrow> (x # xs, c2)))"

subsection \<open>Close (lines 470-485)\<close>

definition Close :: "Connection \<Rightarrow> Connection" where
  "Close c =
     (if closing c then c\<lparr>tcp_closed := True\<rparr>
      else (Write ''</stream:stream>'' c)\<lparr>closing := True\<rparr>)"

subsection \<open>nextStartElement (lines 385-401)\<close>

fun nextStartElement_loop ::
  "Token list \<Rightarrow> (StartElement option \<times> go_error option) \<times> Token list" where
  "nextStartElement_loop [] = ((None, Some DecoderError), [])"
| "nextStartElement_loop (StartElementT t # ts) = ((Some t, None), ts)"
| "nextStartElement_loop (EndElementT n # ts) =
     (if Local n = ''stream'' \<and> Space n = nsStream then ((None, None), ts)
      else nextStartElement_loop ts)"
| "nextStartElement_loop (CharData d # ts) = nextStartElement_loop ts"
| "nextStartElement_loop (OtherToken # ts) = nextStartElement_loop ts"

definition nextStartElement ::
  "Connection \<Rightarrow> (StartElement option \<times> go_error option) \<times> Connection" where
  "nextStartElement c =
     (case nextStartElement_loop (decoder c) of (r, ts) \<Rightarrow> (r, c\<lparr>decoder := ts\<rparr>))"

subsection \<open>reset, openStream, sasl (lines 336-353, 416-421)\<close>

text \<open>\<open>reset\<close> puts a new decoder on the same connection: the peer's remaining tokens
  stay the same.\<close>

definition reset :: "Connection \<Rightarrow> Connection" where
  "reset c = c\<lparr>decoder := decoder c, features := []\<rparr>"

definition openStream :: "Connection \<Rightarrow> Connection" where
  "openStream c =
     Write (''<?xml version='1.0' encoding='UTF-8'?><stream:stream from=''
            @ sq (user c @ ''@'' @ host c) @ '' to='' @ sq (host c)
            @ '' version='1.0' xml:lang='en' xmlns='jabber:client' xmlns:stream='http://etherx.jabber.org/streams'>'') c"

definition sasl :: "Connection \<Rightarrow> (fault + unit) \<times> Connection" where
  "sasl c =
     (let payload = [CHR 0x00] @ user c @ [CHR 0x00] @ password c;
          payloadb64 = EncodeToString payload;
          c1 = Write (''<auth xmlns='urn:ietf:params:xml:ns:xmpp-sasl' mechanism='PLAIN'>''
                      @ payloadb64 @ ''</auth>'') c
      in case nextStartElement c1 of
           ((None, err), c2) \<Rightarrow> (Inl (Panic NilDereference), c2)
         | ((Some t, err), c2) \<Rightarrow>
             (if Local (EName t) = ''success'' then (Inr (), reset c2) else (Inr (), c2)))"

subsection \<open>receiveStream (lines 431-468)\<close>

text \<open>\<^verbatim>\<open>strings.Split(version, ".")[0]\<close>: the part before the first dot (the whole string
  when it has none).\<close>

definition Split_first :: "string \<Rightarrow> string" where
  "Split_first v = takeWhile (\<lambda>ch. ch \<noteq> CHR ''.'') v"

text \<open>The loop over \<^verbatim>\<open>t.Attr\<close>: every attribute whose local name is \<open>version\<close>
  overwrites the variable.\<close>

fun version_loop :: "Attr list \<Rightarrow> string \<Rightarrow> string" where
  "version_loop [] version = version"
| "version_loop (attr # attrs) version =
     (if Local (AName attr) = ''version'' then version_loop attrs (Value attr)
      else version_loop attrs version)"

definition check_version :: "StartElement \<Rightarrow> go_error option" where
  "check_version t =
     (let version = version_loop (Attrs t) [] in
      if version = [] then Some (UnsupportedVersion ''0.9'')
      else if Split_first version \<noteq> ''1'' then Some (UnsupportedVersion version)
      else None)"

definition receiveStream :: "Connection \<Rightarrow> (fault + go_error option) \<times> Connection" where
  "receiveStream c =
     (case nextStartElement c of
        ((t, Some err), c1) \<Rightarrow> (Inr (Some err), c1)
      | ((None, None), c1) \<Rightarrow> (Inl (Panic NilDereference), c1)
      | ((Some t, None), c1) \<Rightarrow>
          (if Local (EName t) \<noteq> ''stream'' then
             (Inr (Some (UnexpectedMessage (Local (EName t)))), c1)
           else if Space (EName t) \<noteq> ''http://etherx.jabber.org/streams'' then
             (Inr None,
              Close (Write ''<stream:error><invalid-namespace xmlns='urn:ietf:params:xml:ns:xmpp-streams'/>'' c1))
           else (Inr (check_version t), c1)))"

subsection \<open>The router: read (lines 269-312)\<close>

text \<open>The \<^verbatim>\<open>switch\<close> on \<^verbatim>\<open>t.Name.Space + " " + t.Name.Local\<close> that allocates the value to
  decode into; the \<^verbatim>\<open>default\<close> branch leaves \<^verbatim>\<open>nv\<close> nil.\<close>

definition new_stanza :: "StartElement \<Rightarrow> Stanza" where
  "new_stanza t =
     (let key = Space (EName t) @ '' '' @ Local (EName t) in
      if key = nsStream @ '' error'' then StreamErrorS (streamError zeroName [])
      else if key = nsClient @ '' message'' then MessageS (Message zeroHeader [] [] [])
      else if key = nsClient @ '' presence'' then
        PresenceS (Presence zeroHeader [] [] [] 0 None)
      else if key = nsClient @ '' iq'' then IQS (IQ zeroHeader None zeroName [])
      else if key = nsClient @ '' error'' then ErrorS (Error [] [] zeroName [])
      else NilStanza)"

text \<open>The loop \<^verbatim>\<open>for _, ch := range c.callbacks { close(ch) }\<close>.\<close>

fun close_loop :: "(string \<times> nat) list \<Rightarrow> Connection \<Rightarrow> (fault + unit) \<times> Connection" where
  "close_loop [] c = (Inr (), c)"
| "close_loop ((k, ch) # kvs) c =
     (case chan_close ch (iq_chans c) of
        Inl f \<Rightarrow> (Inl f, c)
      | Inr h \<Rightarrow> close_loop kvs (c\<lparr>iq_chans := h, trace := trace c @ [EvChanClose ch]\<rparr>))"

text \<open>Lines 301-310: what the router does with the decoded value \<open>nv\<close>.\<close>

definition dispatch :: "Stanza \<Rightarrow> Connection \<Rightarrow> (fault + unit) \<times> Connection" where
  "dispatch nv c =
     (case nv of
        IQS iq \<Rightarrow>
          (if Type (IHeader iq) = ''result'' \<or> Type (IHeader iq) = ''error'' then
             (case Lock c of
                (Inl f, c1) \<Rightarrow> (Inl f, c1)
              | (Inr u, c1) \<Rightarrow>
                  (case map_of (callbacks c1) (ID (IHeader iq)) of
                     Some ch \<Rightarrow>
                       (case chan_send ch iq (iq_chans c1) of
                          Inl f \<Rightarrow> (Inl f, c1)
                        | Inr h \<Rightarrow>
                            (let c2 = c1\<lparr>iq_chans := h, trace := trace c1 @ [EvChanSend ch iq]\<rparr>;
                                 c3 = c2\<lparr>callbacks := AList.delete (ID (IHeader iq)) (callbacks c2),
                                         trace := trace c2 @ [EvMapDelete (ID (IHeader iq))]\<rparr>
                             in Unlock c3))
                   | None \<Rightarrow> Unlock c1))
           else subscribers_send nv c)
      | _ \<Rightarrow> subscribers_send nv c)"

lemma nextStartElement_loop_length:
  "nextStartElement_loop ts = ((Some t, e), ts') \<Longrightarrow> length ts' < length ts"
  by (induction ts rule: nextStartElement_loop.induct) (auto split: if_splits)

lemma nextStartElement_decoder:
  "nextStartElement c = ((Some t, e), c1) \<Longrightarrow> length (decoder c1) < length (decoder c)"
  by (auto simp: nextStartElement_def split: prod.splits dest: nextStartElement_loop_length)

lemma send_loop_decoder_aux:
  "subscribers_send nv c = (r, c') \<Longrightarrow> decoder c' = decoder c"
  by (auto simp: subscribers_send_def split: prod.splits)

lemma dispatch_decoder: "dispatch nv c = (r, c') \<Longrightarrow> decoder c' = decoder c"
  by (auto simp: dispatch_def Lock_def Unlock_def Let_def
      split: Stanza.splits if_splits prod.splits sum.splits option.splits
      dest: send_loop_decoder_aux)

text \<open>
  \<^verbatim>\<open>DecodeElement\<close> belongs to encoding/xml and is a parameter: for the value \<open>nv\<close>, the
  start element and the tokens that follow it, it gives the value filled in and the
  number of further tokens it has read.  The router ignores its error.
\<close>

function read ::
  "(Stanza \<Rightarrow> StartElement \<Rightarrow> Token list \<Rightarrow> Stanza \<times> nat) \<Rightarrow> Connection
     \<Rightarrow> (fault + unit) \<times> Connection" where
  "read DecodeElement c =
     (case nextStartElement c of
        ((None, err), c1) \<Rightarrow>
          (case Lock c1 of
             (Inl f, c2) \<Rightarrow> (Inl f, c2)
           | (Inr u, c2) \<Rightarrow>
               (case close_loop (callbacks c2) c2 of
                  (Inl f, c3) \<Rightarrow> (Inl f, c3)
                | (Inr u', c3) \<Rightarrow> (Inr (), Close c3)))
      | ((Some t, err), c1) \<Rightarrow>
          (let nv = new_stanza t in
           case DecodeElement nv t (decoder c1) of
             (nv', n) \<Rightarrow>
               (case dispatch nv' (c1\<lparr>decoder := drop n (decoder c1)\<rparr>) of
                  (Inl f, c3) \<Rightarrow> (Inl f, c3)
                | (Inr u, c3) \<Rightarrow> read DecodeElement c3)))"
  by pat_completeness auto
termination
  apply (relation "measure (\<lambda>(D, c). length (decoder c))")
   apply simp
  apply auto
  subgoal premises p for D c b y x2 xc yaa yab
    using nextStartElement_decoder [OF p(1) [symmetric]] dispatch_decoder [OF p(3) [symmetric]]
    by simp
  done

declare read.simps [simp del]

subsection \<open>SendIQ and SendIQReply (lines 509-541)\<close>

text \<open>
  The argument \<^verbatim>\<open>value interface{}\<close> is given by what \<^verbatim>\<open>xml.NewEncoder(c).Encode(value)\<close>
  writes for it: \<open>None\<close> is the nil interface (nothing is written), \<open>Some bs\<close> a value
  whose XML encoding is \<open>bs\<close>.
\<close>

definition Encode :: "string option \<Rightarrow> Connection \<Rightarrow> Connection" where
  "Encode v c = (case v of None \<Rightarrow> c | Some bs \<Rightarrow> Write bs c)"

definition iq_start :: "string \<Rightarrow> string \<Rightarrow> string \<Rightarrow> string \<Rightarrow> string" where
  "iq_start toAttr from typ id' =
     ''<iq '' @ toAttr @ '' from='' @ sq from @ '' type='' @ sq typ @ '' id='' @ sq id' @ ''>''"

definition SendIQ ::
  "string \<Rightarrow> string \<Rightarrow> string option \<Rightarrow> Connection \<Rightarrow> (fault + nat \<times> string) \<times> Connection" where
  "SendIQ to typ v c =
     (case getCookie c of
        (cookie', c1) \<Rightarrow>
          (let reply = length (iq_chans c1);
               c2 = c1\<lparr>iq_chans := iq_chans c1 @ [make_chan 1]\<rparr>
           in case Lock c2 of
                (Inl f, c3) \<Rightarrow> (Inl f, c3)
              | (Inr u, c3) \<Rightarrow>
                  (let c4 = c3\<lparr>callbacks := AList.update cookie' reply (callbacks c3),
                               trace := trace c3 @ [EvMapInsert cookie' reply]\<rparr>
                   in case Unlock c4 of
                        (Inl f, c5) \<Rightarrow> (Inl f, c5)
                      | (Inr u', c5) \<Rightarrow>
                          (let toAttr = (if length to > 0 then ''to='' @ sq (xmlEscape to) else []);
                               c6 = Write (iq_start toAttr (xmlEscape (jid c5)) (xmlEscape typ) cookie') c5;
                               c7 = Encode v c6;
                               c8 = Write ''</iq>'' c7
                           in (Inr (reply, cookie'), c8)))))"

definition SendIQReply ::
  "string \<Rightarrow> string \<Rightarrow> string \<Rightarrow> string option \<Rightarrow> Connection \<Rightarrow> Connection" where
  "SendIQReply to typ id' v c =
     (let toAttr = (if length to > 0 then ''to='' @ sq (xmlEscape to) else []);
          c1 = Write (iq_start toAttr (xmlEscape (jid c)) (xmlEscape typ) id') c;
          c2 = (if v \<noteq> None then Encode v c1 else c1)
      in Write ''</iq>'' c2)"

section \<open>The roster and presence layer (package rfc6121)\<close>

text \<open>
  The body of the loop of \<^verbatim>\<open>Connection.read\<close> (rfc6121/client.go, lines 57-77) for one
  stanza received from \<^verbatim>\<open>c.stanzas\<close>, and the loop over the stanzas received.  The
  embedded \<^verbatim>\<open>rfc6120.Client\<close> is the connection above.
\<close>

definition read6121_body :: "Stanza \<Rightarrow> Connection \<Rightarrow> (fault + unit) \<times> Connection" where
  "read6121_body stanza c =
     (case stanza of
        IQS t \<Rightarrow>
          (if Space (Query t) = ''jabber:iq:roster'' \<and> Type (IHeader t) = ''set'' then
             (Inr (), SendIQReply [] ''result'' (ID (IHeader t)) None c)
           else (Inr (), c))
      | PresenceS t \<Rightarrow>
          (if Type (PHeader t) = ''subscribe'' then EmitStanza (AuthorizationRequestS t) c
           else (Inr (), c))
      | _ \<Rightarrow> (Inr (), c))"

fun read6121 :: "Stanza list \<Rightarrow> Connection \<Rightarrow> (fault + unit) \<times> Connection" where
  "read6121 [] c = (Inr (), c)"
| "read6121 (stanza # rest) c =
     (case read6121_body stanza c of
        (Inl f, c1) \<Rightarrow> (Inl f, c1)
      | (Inr u, c1) \<Rightarrow> read6121 rest c1)"

section \<open>Notions the claims use\<close>

text \<open>
  The peer's version: the value of the last attribute of the stream opener whose local
  name is \<open>version\<close>, if there is one.
\<close>

definition peer_version :: "Attr list \<Rightarrow> string option" where
  "peer_version attrs =
     (case filter (\<lambda>a. Local (AName a) = ''version'') attrs of
        [] \<Rightarrow> None
      | a # as \<Rightarrow> Some (Value (last (a # as))))"

text \<open>Reading a decimal string back, to tell two renderings apart.\<close>

definition digit_val :: "char \<Rightarrow> nat" where
  "digit_val ch = of_char ch - 48"

definition undecimal :: "string \<Rightarrow> nat" where
  "undecimal s = foldl (\<lambda>a ch. 10 * a + digit_val ch) 0 s"

text \<open>\<open>before x y tr\<close>: \<open>x\<close> occurs in the log \<open>tr\<close> and \<open>y\<close> occurs after its first
  occurrence.\<close>

fun before :: "'a \<Rightarrow> 'a \<Rightarrow> 'a list \<Rightarrow> bool" where
  "before x y [] = False"
| "before x y (z # zs) = (if z = x then y \<in> set zs else before x y zs)"

text \<open>
  Reading the attributes of an emitted \<^verbatim>\<open><iq ...>\<close> start tag as an XML parser does for
  values between apostrophes: names run up to \<open>=\<close>, a value runs up to the next
  apostrophe, the tag ends at \<open>>\<close> outside a value.  \<open>iq_attrs\<close> gives the attributes in
  order (the values as written, entities not replaced), or \<open>None\<close> when the text is not
  such a tag.
\<close>

datatype scan_mode = Between | InName | AfterEq | InValue

fun attrs_scan ::
  "scan_mode \<Rightarrow> string \<Rightarrow> string \<Rightarrow> string \<Rightarrow> (string \<times> string) list option" where
  "attrs_scan m n v [] = None"
| "attrs_scan m n v (ch # r) =
     (case m of
        Between \<Rightarrow>
          (if ch = CHR '' '' then attrs_scan Between [] [] r
           else if ch = CHR ''>'' then Some []
           else attrs_scan InName [ch] [] r)
      | InName \<Rightarrow>
          (if ch = CHR ''='' then attrs_scan AfterEq n [] r
           else attrs_scan InName (n @ [ch]) [] r)
      | AfterEq \<Rightarrow> (if ch = apos then attrs_scan InValue n [] r else None)
      | InValue \<Rightarrow>
          (if ch = apos then map_option (Cons (n, v)) (attrs_scan Between [] [] r)
           else attrs_scan InValue n (v @ [ch]) r))"

definition iq_attrs :: "string \<Rightarrow> (string \<times> string) list option" where
  "iq_attrs s = (if take 3 s = ''<iq'' then attrs_scan Between [] [] (drop 3 s) else None)"

text \<open>The bytes a call has written: what the connection's output has gained.\<close>

definition emitted :: "Connection \<Rightarrow> Connection \<Rightarrow> string" where
  "emitted c c' = drop (length (wire c)) (wire c')"

text \<open>
  Two properties of the states the package reaches.  \<open>cb_inv\<close>: the entries of \<open>callbacks\<close>
  have different keys and different channels, and every registered channel is in the
  store, open and able to take a value.  \<open>subs_open\<close>: no subscribed channel has been
  closed (the package never closes one).
\<close>

definition cb_inv :: "Connection \<Rightarrow> bool" where
  "cb_inv c \<longleftrightarrow>
     distinct (map fst (callbacks c)) \<and> distinct (map snd (callbacks c))
     \<and> (\<forall>ch\<in>snd ` set (callbacks c).
           ch < length (iq_chans c) \<and> \<not> closed (iq_chans c ! ch) \<and> ready (iq_chans c ! ch))"

definition subs_open :: "Connection \<Rightarrow> bool" where
  "subs_open c \<longleftrightarrow>
     (\<forall>a\<in>set (subscribers c). a < length (stanza_chans c) \<longrightarrow> \<not> closed (stanza_chans c ! a))"

section \<open>Concrete states for the witnesses\<close>

definition conn0 :: Connection where
  "conn0 = newConnection ''alice'' ''example.org'' ''s3cret'' []"

text \<open>A stream opener \<^verbatim>\<open><stream:stream ...>\<close> with the given attributes.\<close>

definition opener :: "Attr list \<Rightarrow> Token" where
  "opener attrs =
     StartElementT (XStart (XName ''http://etherx.jabber.org/streams'' ''stream'') attrs)"

text \<open>The connection after bind: the server has assigned the JID.\<close>

definition connJ :: Connection where
  "connJ = conn0\<lparr>jid := ''alice@example.org/abc''\<rparr>"

text \<open>A connection with one request in flight (id \<open>0\<close>), and the response to it.\<close>

definition connIQ :: Connection where
  "connIQ = snd (SendIQ [] ''get'' (Some ''<query/>'') conn0)"

definition iq0 :: IQ where
  "iq0 = IQ (Header ''example.org'' ''0'' [] ''result'') None zeroName []"

text \<open>The same connection when the peer closes the stream after a keepalive space.\<close>

definition connEnd :: Connection where
  "connEnd = connIQ\<lparr>decoder := [CharData '' '', EndElementT (XName nsStream ''stream'')]\<rparr>"

definition decode0 :: "Stanza \<Rightarrow> StartElement \<Rightarrow> Token list \<Rightarrow> Stanza \<times> nat" where
  "decode0 nv t ts = (nv, 0)"

text \<open>Three subscribers: a channel with room, a full channel, and an unbuffered channel
  with a receiver waiting.\<close>

definition msg0 :: Stanza where
  "msg0 = MessageS (Message (Header ''bob@example.org'' [] [] ''chat'') [] ''hi'' [])"

definition connS :: Connection where
  "connS = conn0\<lparr>subscribers := [0, 1, 2],
     stanza_chans := [make_chan 1, (make_chan 1)\<lparr>buf := [NilStanza]\<rparr>,
                      (make_chan 0)\<lparr>recvq := 1\<rparr>]\<rparr>"

text \<open>A roster push.\<close>

definition push0 :: IQ where
  "push0 = IQ (Header [] ''push-1'' [] ''set'') None (XName ''jabber:iq:roster'' ''query'')
     ''<item jid='bob@example.org'/>''"

section \<open>Theorems\<close>

subsection \<open>xmlEscape\<close>

lemma entity_of_xmlSpecial:
  "entity_of c = (case xmlSpecial c of Some e \<Rightarrow> e | None \<Rightarrow> [c])"
  by (simp add: entity_of_def xmlSpecial_def)

lemma xmlEscape_loop_eq:
  "i \<le> length s \<Longrightarrow> xmlEscape_loop s i b = b @ replace_specials (drop i s)"
proof (induction s i b rule: xmlEscape_loop.induct)
  case (1 s i b)
  show ?case
  proof (cases "i < length s")
    case False
    with "1.prems" have "drop i s = []" by simp
    with False show ?thesis
      by (subst xmlEscape_loop.simps) (simp add: replace_specials_def)
  next
    case True
    then have d: "drop i s = s ! i # drop (Suc i) s"
      by (simp add: Cons_nth_drop_Suc)
    show ?thesis
    proof (cases "xmlSpecial (s ! i)")
      case None
      then have e: "entity_of (s ! i) = [s ! i]"
        by (simp add: entity_of_xmlSpecial)
      have "xmlEscape_loop s i b = xmlEscape_loop s (i + 1) (b @ [s ! i])"
        using True None by (subst xmlEscape_loop.simps) simp
      also have "\<dots> = (b @ [s ! i]) @ replace_specials (drop (i + 1) s)"
        using "1.IH"(1) [OF True refl None] True by simp
      finally show ?thesis
        using d e by (simp add: replace_specials_def)
    next
      case (Some e)
      then have e: "entity_of (s ! i) = e"
        by (simp add: entity_of_xmlSpecial)
      have "xmlEscape_loop s i b = xmlEscape_loop s (i + 1) (b @ e)"
        using True Some by (subst xmlEscape_loop.simps) simp
      also have "\<dots> = (b @ e) @ replace_specials (drop (i + 1) s)"
        using "1.IH"(2) [OF True refl Some] True by simp
      finally show ?thesis
        using d e by (simp add: replace_specials_def)
    qed
  qed
qed

lemma xmlEscape_replace: "xmlEscape s = replace_specials s"
  by (simp add: xmlEscape_def xmlEscape_loop_eq)

lemma xmlUnescape_entity:
  "xmlUnescape (entity_of c @ r) = c # xmlUnescape r"
  by (simp add: entity_of_def apos_def quot_def)

lemma xmlUnescape_replace: "xmlUnescape (replace_specials s) = s"
  by (induction s) (simp_all add: replace_specials_def xmlUnescape_entity)

text \<open>
  C8.  For every input string, \<open>xmlEscape\<close> returns the string in which each of the bytes
  \<open><\<close>, \<open>>\<close>, the quotation mark, the apostrophe and \<open>&\<close> is replaced by its named
  entity and every other byte is unchanged; un-escaping the result gives the input back.
\<close>

theorem xmlEscape_spec:
  "xmlEscape s = replace_specials s \<and> xmlUnescape (xmlEscape s) = s"
  by (simp add: xmlEscape_replace xmlUnescape_replace)

subsection \<open>Close\<close>

text \<open>
  C4.  A call of \<open>Close\<close> while \<open>closing\<close> is false (the first call) writes the bytes
  \<^verbatim>\<open></stream:stream>\<close>, sets \<open>closing\<close> and leaves the TCP connection as it is; a call
  while \<open>closing\<close> is true closes the TCP connection and writes nothing.
\<close>

theorem Close_first_then_hard:
  "(\<not> closing c \<longrightarrow>
      wire (Close c) = wire c @ ''</stream:stream>'' \<and> closing (Close c)
      \<and> tcp_closed (Close c) = tcp_closed c)
   \<and> (closing c \<longrightarrow>
      tcp_closed (Close c) \<and> wire (Close c) = wire c \<and> closing (Close c))"
  by (simp add: Close_def Write_def)

theorem Close_first_then_hard_witness:
  "\<not> closing conn0 \<and> wire (Close conn0) = ''</stream:stream>'' \<and> closing (Close conn0)
   \<and> \<not> tcp_closed (Close conn0)
   \<and> tcp_closed (Close (Close conn0)) \<and> wire (Close (Close conn0)) = ''</stream:stream>''"
  using Close_first_then_hard [of conn0] Close_first_then_hard [of "Close conn0"]
  by (simp add: conn0_def newConnection_def)

subsection \<open>sasl\<close>

text \<open>
  C7.  For every user and password, \<open>sasl\<close> writes exactly the element
  \<^verbatim>\<open><auth xmlns='urn:ietf:params:xml:ns:xmpp-sasl' mechanism='PLAIN'>b64</auth>\<close>, where
  \<open>b64\<close> is the standard base64 encoding of NUL, user, NUL, password (whatever the peer
  answers); for user alice and password s3cret the payload is \<^verbatim>\<open>AGFsaWNlAHMzY3JldA==\<close>.
\<close>

theorem sasl_auth_element:
  "wire (snd (sasl c)) =
     wire c @ ''<auth xmlns='urn:ietf:params:xml:ns:xmpp-sasl' mechanism='PLAIN'>''
       @ EncodeToString ([CHR 0x00] @ user c @ [CHR 0x00] @ password c) @ ''</auth>''
   \<and> EncodeToString ([CHR 0x00] @ ''alice'' @ [CHR 0x00] @ ''s3cret'') = ''AGFsaWNlAHMzY3JldA==''
   \<and> wire (snd (sasl conn0)) =
       ''<auth xmlns='urn:ietf:params:xml:ns:xmpp-sasl' mechanism='PLAIN'>AGFsaWNlAHMzY3JldA==</auth>''"
proof -
  have w: "wire (snd (sasl c)) =
     wire c @ ''<auth xmlns='urn:ietf:params:xml:ns:xmpp-sasl' mechanism='PLAIN'>''
       @ EncodeToString ([CHR 0x00] @ user c @ [CHR 0x00] @ password c) @ ''</auth>''" for c
    by (auto simp: sasl_def Let_def nextStartElement_def reset_def Write_def
        split: prod.splits option.splits)
  have e: "EncodeToString ([CHR 0x00] @ ''alice'' @ [CHR 0x00] @ ''s3cret'')
             = ''AGFsaWNlAHMzY3JldA==''"
    by (simp add: b64_def encodeStd_def)
  have "wire (snd (sasl conn0)) =
       ''<auth xmlns='urn:ietf:params:xml:ns:xmpp-sasl' mechanism='PLAIN'>AGFsaWNlAHMzY3JldA==</auth>''"
    unfolding w using e by (simp add: conn0_def newConnection_def)
  with w e show ?thesis by simp
qed

subsection \<open>receiveStream\<close>

lemma version_loop_filter:
  "version_loop attrs v =
     (case filter (\<lambda>a. Local (AName a) = ''version'') attrs of
        [] \<Rightarrow> v
      | a # as \<Rightarrow> Value (last (a # as)))"
  by (induction attrs arbitrary: v) (auto split: list.splits)

lemma version_loop_peer:
  "version_loop attrs [] = (case peer_version attrs of None \<Rightarrow> [] | Some v \<Rightarrow> v)"
  by (simp add: version_loop_filter peer_version_def split: list.splits)

lemma receiveStream_opener:
  assumes "nextStartElement c = ((Some t, None), c1)"
    and "EName t = XName ''http://etherx.jabber.org/streams'' ''stream''"
  shows "receiveStream c = (Inr (check_version t), c1)"
  using assms by (simp add: receiveStream_def)

text \<open>
  C2, as the code has it.  When the next start element is the stream opener (local name
  \<open>stream\<close> in the streams namespace), the version check of \<open>receiveStream\<close> gives:
  version 1.0 and 1.9: success; 2.0: \<open>UnsupportedVersion 2.0\<close>; no version attribute, or
  one with the empty value: \<open>UnsupportedVersion 0.9\<close>; any non-empty \<open>v\<close> whose part before
  the first dot is not \<open>1\<close>: \<open>UnsupportedVersion v\<close>; any \<open>v\<close> whose part before the first
  dot is \<open>1\<close>: success.
\<close>

theorem receiveStream_version:
  assumes "nextStartElement c = ((Some t, None), c1)"
    and "EName t = XName ''http://etherx.jabber.org/streams'' ''stream''"
  shows "(peer_version (Attrs t) = Some ''1.0'' \<longrightarrow> fst (receiveStream c) = Inr None)
    \<and> (peer_version (Attrs t) = Some ''1.9'' \<longrightarrow> fst (receiveStream c) = Inr None)
    \<and> (peer_version (Attrs t) = Some ''2.0'' \<longrightarrow>
          fst (receiveStream c) = Inr (Some (UnsupportedVersion ''2.0'')))
    \<and> (peer_version (Attrs t) = None \<or> peer_version (Attrs t) = Some [] \<longrightarrow>
          fst (receiveStream c) = Inr (Some (UnsupportedVersion ''0.9'')))
    \<and> (\<forall>v. peer_version (Attrs t) = Some v \<and> v \<noteq> [] \<and> Split_first v \<noteq> ''1'' \<longrightarrow>
          fst (receiveStream c) = Inr (Some (UnsupportedVersion v)))
    \<and> (\<forall>v. peer_version (Attrs t) = Some v \<and> Split_first v = ''1'' \<longrightarrow>
          fst (receiveStream c) = Inr None)"
  using receiveStream_opener [OF assms]
  by (auto simp: check_version_def version_loop_peer Split_first_def Let_def)

theorem receiveStream_version_witness:
  "fst (receiveStream (conn0\<lparr>decoder := [opener [XAttr (XName [] ''version'') ''1.0'']]\<rparr>))
     = Inr None
   \<and> fst (receiveStream (conn0\<lparr>decoder := [opener [XAttr (XName [] ''version'') ''1.9'']]\<rparr>))
     = Inr None
   \<and> fst (receiveStream (conn0\<lparr>decoder := [opener [XAttr (XName [] ''version'') ''2.0'']]\<rparr>))
     = Inr (Some (UnsupportedVersion ''2.0''))
   \<and> fst (receiveStream (conn0\<lparr>decoder := [opener [XAttr (XName [] ''to'') ''example.org'']]\<rparr>))
     = Inr (Some (UnsupportedVersion ''0.9''))
   \<and> fst (receiveStream (conn0\<lparr>decoder := [opener [XAttr (XName [] ''version'') ''3.1.4'']]\<rparr>))
     = Inr (Some (UnsupportedVersion ''3.1.4''))"
proof -
  let ?t = "\<lambda>attrs. XStart (XName ''http://etherx.jabber.org/streams'' ''stream'') attrs"
  have n: "nextStartElement (conn0\<lparr>decoder := [opener attrs]\<rparr>)
             = ((Some (?t attrs), None), conn0\<lparr>decoder := []\<rparr>)" for attrs
    by (simp add: nextStartElement_def opener_def)
  have e: "EName (?t attrs) = XName ''http://etherx.jabber.org/streams'' ''stream''" for attrs
    by simp
  show ?thesis
    using receiveStream_version [OF n e, of "[XAttr (XName [] ''version'') ''1.0'']"]
      receiveStream_version [OF n e, of "[XAttr (XName [] ''version'') ''1.9'']"]
      receiveStream_version [OF n e, of "[XAttr (XName [] ''version'') ''2.0'']"]
      receiveStream_version [OF n e, of "[XAttr (XName [] ''to'') ''example.org'']"]
      receiveStream_version [OF n e, of "[XAttr (XName [] ''version'') ''3.1.4'']"]
    by (simp add: peer_version_def Split_first_def)
qed

text \<open>
  C2 as written fails for a version attribute that is present and empty
  (\<^verbatim>\<open><stream:stream version=''>\<close>): its part before the first dot is not \<open>1\<close>, and the
  result is \<open>UnsupportedVersion 0.9\<close>, not \<open>UnsupportedVersion\<close> of the empty string.
\<close>

theorem receiveStream_empty_version_counterexample:
  "peer_version [XAttr (XName [] ''version'') []] = Some []
   \<and> Split_first [] \<noteq> ''1''
   \<and> fst (receiveStream (conn0\<lparr>decoder := [opener [XAttr (XName [] ''version'') []]]\<rparr>))
       = Inr (Some (UnsupportedVersion ''0.9''))
   \<and> fst (receiveStream (conn0\<lparr>decoder := [opener [XAttr (XName [] ''version'') []]]\<rparr>))
       \<noteq> Inr (Some (UnsupportedVersion []))"
  by (simp add: peer_version_def Split_first_def receiveStream_def nextStartElement_def
      opener_def check_version_def conn0_def newConnection_def)

subsection \<open>The id generator\<close>

lemma digit_val_digit_char: "d < 10 \<Longrightarrow> digit_val (digit_char d) = d"
proof -
  assume "d < 10"
  then have "d \<in> {0, 1, 2, 3, 4, 5, 6, 7, 8, 9}" by auto
  then show ?thesis
    by (auto simp: digit_val_def digit_char_def)
qed

lemma undecimal_decimal: "undecimal (decimal n) = n"
proof (induction n rule: decimal.induct)
  case (1 n)
  show ?case
  proof (cases "n < 10")
    case True
    then show ?thesis
      by (subst decimal.simps) (simp add: undecimal_def digit_val_digit_char)
  next
    case False
    have "undecimal (decimal n)
            = 10 * undecimal (decimal (n div 10)) + digit_val (digit_char (n mod 10))"
      using False by (subst decimal.simps) (simp add: undecimal_def)
    also have "\<dots> = 10 * (n div 10) + n mod 10"
      using "1.IH" [OF False] by (simp add: digit_val_digit_char)
    finally show ?thesis by simp
  qed
qed

lemma decimal_inj: "decimal m = decimal n \<Longrightarrow> m = n"
  by (metis undecimal_decimal)

lemma decimal_0: "decimal 0 = ''0''"
  by (subst decimal.simps) (simp add: digit_char_def)

lemma length_generateCookies_loop: "length (generateCookies_loop n i) = n"
  by (induction n arbitrary: i) auto

lemma generateCookies_loop_nth:
  "k < n \<Longrightarrow> generateCookies_loop n i ! k = decimal (unat (i + of_nat k))"
proof (induction n arbitrary: i k)
  case 0
  then show ?case by simp
next
  case (Suc n)
  show ?case
  proof (cases k)
    case 0
    then show ?thesis by simp
  next
    case (Suc j)
    with Suc.prems have "j < n" by simp
    from Suc.IH [OF this, of "i + 1"] Suc show ?thesis
      by (simp add: ac_simps)
  qed
qed

lemma getCookies_generateCookies_loop:
  "fst (getCookies n c) = generateCookies_loop n (cookie c)"
proof (induction n arbitrary: c)
  case 0
  then show ?case by simp
next
  case (Suc n)
  from Suc [of "c\<lparr>cookie := cookie c + 1\<rparr>"] show ?case
    by (auto simp: getCookie_def split: prod.splits)
qed

text \<open>
  C6, as the code has it.  The generator hands out the decimal renderings of a 64-bit
  counter that starts at 0 and is incremented once per id.  Hence among the first \<open>n\<close> ids
  of a session, for \<open>n\<close> up to \<open>2 ^ 64\<close>, the id at position \<open>k\<close> (counting from 0) is the
  decimal string of \<open>k\<close>, and the ids are pairwise distinct; \<open>n\<close> calls of \<open>getCookie\<close> on
  a new connection receive exactly these ids.
\<close>

theorem generateCookies_distinct:
  assumes "n \<le> 2 ^ 64"
  shows "length (generateCookies n) = n
    \<and> (\<forall>k<n. generateCookies n ! k = decimal k)
    \<and> distinct (generateCookies n)
    \<and> fst (getCookies n (newConnection u h p ts)) = generateCookies n"
proof -
  have nth: "generateCookies n ! k = decimal k" if "k < n" for k
  proof -
    from that assms have "k < 2 ^ 64" by simp
    then show ?thesis
      using generateCookies_loop_nth [OF that, of 0]
      by (simp add: generateCookies_def unat_of_nat)
  qed
  have len: "length (generateCookies n) = n"
    by (simp add: generateCookies_def length_generateCookies_loop)
  have "distinct (generateCookies n)"
    unfolding distinct_conv_nth by (auto simp: len nth dest: decimal_inj)
  moreover have "fst (getCookies n (newConnection u h p ts)) = generateCookies n"
    by (simp add: getCookies_generateCookies_loop generateCookies_def newConnection_def)
  ultimately show ?thesis
    using nth len by simp
qed

theorem generateCookies_distinct_witness:
  "(3::nat) \<le> 2 ^ 64 \<and> generateCookies 3 = [''0'', ''1'', ''2'']
   \<and> distinct (generateCookies 3)
   \<and> fst (getCookies 3 conn0) = [''0'', ''1'', ''2'']"
proof -
  have g: "generateCookies 3 = [''0'', ''1'', ''2'']"
    by (simp add: generateCookies_def numeral_3_eq_3 decimal.simps digit_char_def)
  show ?thesis
    using generateCookies_distinct [of 3 "''alice''" "''example.org''" "''s3cret''" "[]"] g
    by (simp add: conn0_def)
qed

text \<open>
  C6 without the bound fails: the counter wraps, so the id handed out after
  \<open>2 ^ 64\<close> others is \<open>0\<close> again, not the decimal string of \<open>2 ^ 64\<close>.
\<close>

theorem generateCookies_wrap_counterexample:
  "generateCookies (2 ^ 64 + 1) ! (2 ^ 64) = ''0''
   \<and> generateCookies (2 ^ 64 + 1) ! 0 = ''0''
   \<and> \<not> distinct (generateCookies (2 ^ 64 + 1))"
proof -
  have a: "generateCookies (2 ^ 64 + 1) ! (2 ^ 64)
             = decimal (unat (0 + of_nat (2 ^ 64) :: 64 word))"
    unfolding generateCookies_def by (rule generateCookies_loop_nth) simp
  have b: "generateCookies (2 ^ 64 + 1) ! 0 = decimal (unat (0 + of_nat 0 :: 64 word))"
    unfolding generateCookies_def by (rule generateCookies_loop_nth) simp
  have z: "(of_nat (2 ^ 64) :: 64 word) = 0"
    by simp
  from a b z decimal_0
  have ab: "generateCookies (2 ^ 64 + 1) ! (2 ^ 64) = ''0''"
    "generateCookies (2 ^ 64 + 1) ! 0 = ''0''"
    by simp_all
  have len: "length (generateCookies (2 ^ 64 + 1)) = 2 ^ 64 + 1"
    by (simp add: generateCookies_def length_generateCookies_loop)
  have "\<not> distinct (generateCookies (2 ^ 64 + 1))"
  proof
    assume "distinct (generateCookies (2 ^ 64 + 1))"
    then have "generateCookies (2 ^ 64 + 1) ! (2 ^ 64) \<noteq> generateCookies (2 ^ 64 + 1) ! 0"
      using len by (simp add: distinct_conv_nth)
    with ab show False by simp
  qed
  with ab show ?thesis by simp
qed

subsection \<open>subscribers.send\<close>

lemma closed_deliver: "closed (deliver v k) = closed k"
  by (simp add: deliver_def)

lemma ready_room: "ready k \<longleftrightarrow> 0 < room k"
  by (auto simp: ready_def room_def)

lemma room_deliver: "ready k \<Longrightarrow> room (deliver v k) = room k - 1"
  by (auto simp: ready_def room_def deliver_def)

lemma chan_try_send_open:
  assumes "ch < length h \<longrightarrow> \<not> closed (h ! ch)"
  shows "chan_try_send ch v h
           = Inr (if ch < length h \<and> ready (h ! ch) then h[ch := deliver v (h ! ch)] else h)"
  using assms by (simp add: chan_try_send_def)

lemma send_loop_result:
  assumes "\<forall>a\<in>set chs. a < length h \<longrightarrow> \<not> closed (h ! a)"
  shows "fst (send_loop chs st h) = Inr ()
    \<and> length (snd (send_loop chs st h)) = length h
    \<and> (\<forall>a<length h. snd (send_loop chs st h) ! a
          = (deliver st ^^ min (count_list chs a) (room (h ! a))) (h ! a))"
  using assms
proof (induction chs arbitrary: h)
  case Nil
  then show ?case by simp
next
  case (Cons ch chs)
  let ?h1 = "if ch < length h \<and> ready (h ! ch) then h[ch := deliver st (h ! ch)] else h"
  have step: "chan_try_send ch st h = Inr ?h1"
    using Cons.prems by (intro chan_try_send_open) simp
  have len1: "length ?h1 = length h" by simp
  have open1: "\<forall>a\<in>set chs. a < length ?h1 \<longrightarrow> \<not> closed (?h1 ! a)"
    using Cons.prems by (auto simp: nth_list_update closed_deliver)
  note IH = Cons.IH [OF open1]
  have eq: "send_loop (ch # chs) st h = send_loop chs st ?h1"
    using step by simp
  have nth: "snd (send_loop chs st ?h1) ! a
          = (deliver st ^^ min (count_list (ch # chs) a) (room (h ! a))) (h ! a)"
    if a: "a < length h" for a
  proof -
    from IH a have r: "snd (send_loop chs st ?h1) ! a
        = (deliver st ^^ min (count_list chs a) (room (?h1 ! a))) (?h1 ! a)"
      by simp
    show ?thesis
    proof (cases "a = ch \<and> ready (h ! ch)")
      case True
      then have h1a: "?h1 ! a = deliver st (h ! a)" using a by simp
      from True have pos: "0 < room (h ! a)" by (simp add: ready_room)
      have "min (count_list (ch # chs) a) (room (h ! a))
              = Suc (min (count_list chs a) (room (h ! a) - 1))"
        using True pos by (cases "room (h ! a)") (auto simp: min_def)
      moreover have "room (?h1 ! a) = room (h ! a) - 1"
        using True h1a by (simp add: room_deliver)
      ultimately show ?thesis
        using r h1a by (simp add: funpow_swap1)
    next
      case False
      then have h1a: "?h1 ! a = h ! a" using a by auto
      have "min (count_list (ch # chs) a) (room (h ! a)) = min (count_list chs a) (room (h ! a))"
        using False by (auto simp: ready_room)
      then show ?thesis using r h1a by simp
    qed
  qed
  from IH len1 nth show ?case
    unfolding eq by simp
qed

text \<open>
  C5.  One fan-out of a stanza, when no subscribed channel has been closed: the call
  returns without blocking and changes nothing but the subscribers' channels; a channel
  that is registered \<open>n\<close> times and can take \<open>r\<close> values at once gets \<open>min n r\<close> copies of
  the stanza.  So every registered channel that can accept a value at once receives the
  stanza, and a channel that is full (or not registered) is left as it is, whatever the
  other channels are.
\<close>

theorem subscribers_send_fanout:
  assumes "\<forall>a\<in>set (subscribers c). a < length (stanza_chans c) \<longrightarrow> \<not> closed (stanza_chans c ! a)"
  shows "fst (subscribers_send st c) = Inr ()
    \<and> snd (subscribers_send st c) = c\<lparr>stanza_chans := stanza_chans (snd (subscribers_send st c))\<rparr>
    \<and> length (stanza_chans (snd (subscribers_send st c))) = length (stanza_chans c)
    \<and> (\<forall>a<length (stanza_chans c).
          stanza_chans (snd (subscribers_send st c)) ! a
            = (deliver st ^^ min (count_list (subscribers c) a) (room (stanza_chans c ! a)))
                (stanza_chans c ! a))
    \<and> (\<forall>a<length (stanza_chans c). a \<in> set (subscribers c) \<and> ready (stanza_chans c ! a) \<longrightarrow>
          (\<exists>m. stanza_chans (snd (subscribers_send st c)) ! a
                  = (deliver st ^^ m) (deliver st (stanza_chans c ! a))))
    \<and> (\<forall>a<length (stanza_chans c). a \<notin> set (subscribers c) \<or> \<not> ready (stanza_chans c ! a) \<longrightarrow>
          stanza_chans (snd (subscribers_send st c)) ! a = stanza_chans c ! a)"
proof -
  let ?h = "stanza_chans c" and ?r = "send_loop (subscribers c) st (stanza_chans c)"
  note L = send_loop_result [OF assms, of st]
  have s: "subscribers_send st c = (fst ?r, c\<lparr>stanza_chans := snd ?r\<rparr>)"
    by (simp add: subscribers_send_def split: prod.splits)
  have main: "\<forall>a<length ?h. snd ?r ! a
        = (deliver st ^^ min (count_list (subscribers c) a) (room (?h ! a))) (?h ! a)"
    using L by simp
  have some: "\<exists>m. snd ?r ! a = (deliver st ^^ m) (deliver st (?h ! a))"
    if "a < length ?h" "a \<in> set (subscribers c)" "ready (?h ! a)" for a
  proof -
    from that have "0 < count_list (subscribers c) a" "0 < room (?h ! a)"
      using count_list_0_iff [of "subscribers c" a] by (auto simp: ready_room)
    then obtain m where "min (count_list (subscribers c) a) (room (?h ! a)) = Suc m"
      by (cases "min (count_list (subscribers c) a) (room (?h ! a))") auto
    with main that(1) show ?thesis by (auto simp: funpow_swap1)
  qed
  have none: "snd ?r ! a = ?h ! a"
    if "a < length ?h" "a \<notin> set (subscribers c) \<or> \<not> ready (?h ! a)" for a
  proof -
    from that(2) have "min (count_list (subscribers c) a) (room (?h ! a)) = 0"
      by (auto simp: ready_room count_list_0_iff)
    with main that(1) show ?thesis by simp
  qed
  show ?thesis
    using L main some none by (simp add: s)
qed

theorem subscribers_send_fanout_witness:
  "fst (subscribers_send msg0 connS) = Inr ()
   \<and> stanza_chans (snd (subscribers_send msg0 connS)) ! 0 = (make_chan 1)\<lparr>buf := [msg0]\<rparr>
   \<and> stanza_chans (snd (subscribers_send msg0 connS)) ! 1 = (make_chan 1)\<lparr>buf := [NilStanza]\<rparr>
   \<and> stanza_chans (snd (subscribers_send msg0 connS)) ! 2 = (make_chan 0)\<lparr>handed := [msg0]\<rparr>"
proof -
  have h: "\<forall>a\<in>set (subscribers connS).
             a < length (stanza_chans connS) \<longrightarrow> \<not> closed (stanza_chans connS ! a)"
    by (simp add: connS_def make_chan_def)
  have n: "count_list (subscribers connS) 0 = 1" "count_list (subscribers connS) (Suc 0) = 1"
    "count_list (subscribers connS) 2 = 1"
    by (simp_all add: connS_def)
  have r: "room (stanza_chans connS ! 0) = 1" "room (stanza_chans connS ! Suc 0) = 0"
    "room (stanza_chans connS ! 2) = 1"
    by (simp_all add: connS_def make_chan_def room_def)
  have l: "length (stanza_chans connS) = 3"
    by (simp add: connS_def)
  from subscribers_send_fanout [OF h, of msg0]
  have f: "fst (subscribers_send msg0 connS) = Inr ()"
    and a: "\<forall>a<length (stanza_chans connS).
          stanza_chans (snd (subscribers_send msg0 connS)) ! a
            = (deliver msg0 ^^ min (count_list (subscribers connS) a) (room (stanza_chans connS ! a)))
                (stanza_chans connS ! a)"
    by simp_all
  from a [rule_format, of 0] a [rule_format, of 1] a [rule_format, of 2]
  have "stanza_chans (snd (subscribers_send msg0 connS)) ! 0 = deliver msg0 (stanza_chans connS ! 0)"
    "stanza_chans (snd (subscribers_send msg0 connS)) ! 1 = stanza_chans connS ! 1"
    "stanza_chans (snd (subscribers_send msg0 connS)) ! 2 = deliver msg0 (stanza_chans connS ! 2)"
    by (simp_all add: l n r)
  with f show ?thesis
    by (simp add: connS_def deliver_def make_chan_def)
qed

subsection \<open>The router\<close>

lemma connIQ_eq:
  "connIQ = conn0\<lparr>wire := ''<iq  from='' @ sq [] @ '' type='' @ sq ''get'' @ '' id='' @ sq ''0''
                            @ ''><query/></iq>'',
      cookie := 1, callbacks := [(''0'', 0)], iq_chans := [make_chan 1],
      trace := [EvLock, EvMapInsert ''0'' 0, EvUnlock]\<rparr>"
  by (simp add: connIQ_def conn0_def newConnection_def SendIQ_def getCookie_def Lock_def Unlock_def
      Let_def Write_def Encode_def iq_start_def decimal_0 xmlEscape_replace replace_specials_def
      entity_of_def apos_def quot_def)

text \<open>
  C1, as the code has it.  For an inbound IQ stanza of type \<open>result\<close> or \<open>error\<close> whose id
  is a key of \<open>callbacks\<close> (the mutex being free and the registered channel open and able
  to take a value, as every channel made by \<open>SendIQ\<close> is): the router hands exactly that
  stanza to the registered channel, once; afterwards the id is no key of \<open>callbacks\<close> and
  the other entries are as before; nothing goes to the subscribers.  Inside one critical
  section of the mutex the stanza is sent on the channel first and the entry is deleted
  after that.
\<close>

theorem dispatch_iq_response:
  assumes "Type (IHeader iq) = ''result'' \<or> Type (IHeader iq) = ''error''"
    and "map_of (callbacks c) (Id' (IHeader iq)) = Some ch"
    and "\<not> mu c"
    and "ch < length (iq_chans c)" and "\<not> closed (iq_chans c ! ch)" and "ready (iq_chans c ! ch)"
  shows "fst (dispatch (IQS iq) c) = Inr ()
    \<and> iq_chans (snd (dispatch (IQS iq) c)) = (iq_chans c)[ch := deliver iq (iq_chans c ! ch)]
    \<and> map_of (callbacks (snd (dispatch (IQS iq) c)))
        = (map_of (callbacks c))(Id' (IHeader iq) := None)
    \<and> trace (snd (dispatch (IQS iq) c))
        = trace c @ [EvLock, EvChanSend ch iq, EvMapDelete (Id' (IHeader iq)), EvUnlock]
    \<and> stanza_chans (snd (dispatch (IQS iq) c)) = stanza_chans c
    \<and> \<not> mu (snd (dispatch (IQS iq) c))"
proof -
  have s: "chan_send ch iq (iq_chans c) = Inr ((iq_chans c)[ch := deliver iq (iq_chans c ! ch)])"
    using assms(4-6) by (simp add: chan_send_def)
  show ?thesis
    using assms(1-3) s
    by (auto simp: dispatch_def Lock_def Unlock_def ID_def Let_def AList.delete_conv')
qed

theorem dispatch_iq_response_witness:
  "fst (dispatch (IQS iq0) connIQ) = Inr ()
   \<and> iq_chans (snd (dispatch (IQS iq0) connIQ)) = [(make_chan 1)\<lparr>buf := [iq0]\<rparr>]
   \<and> map_of (callbacks connIQ) ''0'' = Some 0
   \<and> map_of (callbacks (snd (dispatch (IQS iq0) connIQ))) ''0'' = None"
proof -
  have 1: "Type (IHeader iq0) = ''result'' \<or> Type (IHeader iq0) = ''error''"
    by (simp add: iq0_def)
  have 2: "map_of (callbacks connIQ) (Id' (IHeader iq0)) = Some 0"
    by (simp add: connIQ_eq iq0_def)
  have 3: "\<not> mu connIQ"
    by (simp add: connIQ_eq conn0_def newConnection_def)
  have 4: "0 < length (iq_chans connIQ)" "\<not> closed (iq_chans connIQ ! 0)"
    "ready (iq_chans connIQ ! 0)"
    by (simp_all add: connIQ_eq make_chan_def ready_def)
  have 5: "Id' (IHeader iq0) = ''0''"
    by (simp add: iq0_def)
  from dispatch_iq_response [OF 1 2 3 4] show ?thesis
    unfolding 5 by (simp add: connIQ_eq make_chan_def deliver_def)
qed

text \<open>
  The order that C1 states does not hold: in the log of the call the send on the reply
  channel comes before the deletion of the map entry.
\<close>

theorem dispatch_order_counterexample:
  "trace (snd (dispatch (IQS iq0) connIQ))
     = [EvLock, EvMapInsert ''0'' 0, EvUnlock,
        EvLock, EvChanSend 0 iq0, EvMapDelete ''0'', EvUnlock]
   \<and> before (EvChanSend 0 iq0) (EvMapDelete ''0'') (trace (snd (dispatch (IQS iq0) connIQ)))
   \<and> \<not> before (EvMapDelete ''0'') (EvChanSend 0 iq0) (trace (snd (dispatch (IQS iq0) connIQ)))"
proof -
  have t: "trace (snd (dispatch (IQS iq0) connIQ))
     = [EvLock, EvMapInsert ''0'' 0, EvUnlock,
        EvLock, EvChanSend 0 iq0, EvMapDelete ''0'', EvUnlock]"
    by (simp add: connIQ_eq make_chan_def deliver_def AList.delete_eq conn0_def
        newConnection_def dispatch_def Lock_def Unlock_def ID_def iq0_def chan_send_def ready_def)
  show ?thesis unfolding t by (simp add: iq0_def)
qed

text \<open>A response whose id is no key of \<open>callbacks\<close> (a second response to the same
  request, say) is dropped: only the mutex is taken and released.\<close>

lemma dispatch_iq_unregistered:
  assumes "Type (IHeader iq) = ''result'' \<or> Type (IHeader iq) = ''error''"
    and "map_of (callbacks c) (Id' (IHeader iq)) = None"
    and "\<not> mu c"
  shows "dispatch (IQS iq) c = (Inr (), c\<lparr>trace := trace c @ [EvLock, EvUnlock]\<rparr>)"
  using assms by (auto simp: dispatch_def Lock_def Unlock_def ID_def)

lemma close_loop_result:
  assumes "distinct (map snd kvs)"
    and "\<forall>ch\<in>snd ` set kvs. ch < length (iq_chans c) \<and> \<not> closed (iq_chans c ! ch)"
  shows "fst (close_loop kvs c) = Inr ()
    \<and> snd (close_loop kvs c)
        = c\<lparr>iq_chans := iq_chans (snd (close_loop kvs c)),
            trace := trace c @ map (\<lambda>kv. EvChanClose (snd kv)) kvs\<rparr>
    \<and> length (iq_chans (snd (close_loop kvs c))) = length (iq_chans c)
    \<and> (\<forall>a<length (iq_chans c). iq_chans (snd (close_loop kvs c)) ! a
          = (if a \<in> snd ` set kvs then (iq_chans c ! a)\<lparr>closed := True\<rparr> else iq_chans c ! a))"
  using assms
proof (induction kvs arbitrary: c)
  case Nil
  then show ?case by simp
next
  case (Cons kv kvs)
  obtain k ch where kv: "kv = (k, ch)" by (cases kv)
  let ?h = "(iq_chans c)[ch := (iq_chans c ! ch)\<lparr>closed := True\<rparr>]"
  let ?c1 = "c\<lparr>iq_chans := ?h, trace := trace c @ [EvChanClose ch]\<rparr>"
  from Cons.prems kv have ch: "ch < length (iq_chans c)" "\<not> closed (iq_chans c ! ch)"
    "ch \<notin> snd ` set kvs" "distinct (map snd kvs)"
    by auto
  then have step: "close_loop (kv # kvs) c = close_loop kvs ?c1"
    by (simp add: kv chan_close_def)
  have pre: "\<forall>a\<in>snd ` set kvs. a < length (iq_chans ?c1) \<and> \<not> closed (iq_chans ?c1 ! a)"
    using Cons.prems ch by (auto simp: nth_list_update)
  note IH = Cons.IH [OF ch(4) pre]
  have nth: "iq_chans (snd (close_loop kvs ?c1)) ! a
        = (if a \<in> snd ` set (kv # kvs) then (iq_chans c ! a)\<lparr>closed := True\<rparr>
           else iq_chans c ! a)"
    if "a < length (iq_chans c)" for a
    using IH that ch kv by (auto simp: nth_list_update)
  have rest: "snd (close_loop kvs ?c1)
        = c\<lparr>iq_chans := iq_chans (snd (close_loop kvs ?c1)),
            trace := trace c @ map (\<lambda>kv. EvChanClose (snd kv)) (kv # kvs)\<rparr>"
    using IH kv by (subst conjunct1 [OF conjunct2 [OF IH]]) simp
  show ?case
    unfolding step using IH nth rest by simp
qed

lemma read_None:
  assumes "fst (nextStartElement_loop (decoder c)) = (None, e)"
  shows "read D c =
     (case Lock (c\<lparr>decoder := snd (nextStartElement_loop (decoder c))\<rparr>) of
        (Inl f, c2) \<Rightarrow> (Inl f, c2)
      | (Inr u, c2) \<Rightarrow>
          (case close_loop (callbacks c2) c2 of
             (Inl f, c3) \<Rightarrow> (Inl f, c3)
           | (Inr u', c3) \<Rightarrow> (Inr (), Close c3)))"
  using assms
  by (subst read.simps) (auto simp: nextStartElement_def split: prod.splits)

text \<open>
  C3.  When \<open>nextStartElement\<close> gives no element, which is what it does at the closing
  \<^verbatim>\<open></stream:stream>\<close> (\<open>e = None\<close>) and at a decoder error (\<open>e = Some DecoderError\<close>), the
  router closes the channel of every pending callback, calls \<open>Close\<close> and returns.  The
  mutex is free at that point and the reply channels of the pending callbacks are open
  and pairwise different, as \<open>SendIQ\<close> makes them.
\<close>

theorem read_end_of_stream:
  assumes "fst (nextStartElement_loop (decoder c)) = (None, e)"
    and "\<not> mu c"
    and "distinct (map snd (callbacks c))"
    and "\<forall>ch\<in>snd ` set (callbacks c). ch < length (iq_chans c) \<and> \<not> closed (iq_chans c ! ch)"
  shows "\<exists>c'. read D c = (Inr (), Close c')
    \<and> length (iq_chans c') = length (iq_chans c)
    \<and> (\<forall>a<length (iq_chans c). iq_chans c' ! a
          = (if a \<in> snd ` set (callbacks c) then (iq_chans c ! a)\<lparr>closed := True\<rparr>
             else iq_chans c ! a))
    \<and> trace c' = trace c @ [EvLock] @ map (\<lambda>kv. EvChanClose (snd kv)) (callbacks c)
    \<and> wire c' = wire c \<and> closing c' = closing c \<and> tcp_closed c' = tcp_closed c
    \<and> callbacks c' = callbacks c \<and> stanza_chans c' = stanza_chans c"
proof -
  let ?c2 = "c\<lparr>decoder := snd (nextStartElement_loop (decoder c)), mu := True,
                trace := trace c @ [EvLock]\<rparr>"
  have pre: "\<forall>ch\<in>snd ` set (callbacks c).
               ch < length (iq_chans ?c2) \<and> \<not> closed (iq_chans ?c2 ! ch)"
    using assms(4) by simp
  obtain r c3 where cl: "close_loop (callbacks c) ?c2 = (r, c3)"
    by (cases "close_loop (callbacks c) ?c2")
  from close_loop_result [OF assms(3) pre] cl
  have L: "r = Inr ()"
    "c3 = ?c2\<lparr>iq_chans := iq_chans c3,
              trace := trace ?c2 @ map (\<lambda>kv. EvChanClose (snd kv)) (callbacks c)\<rparr>"
    "length (iq_chans c3) = length (iq_chans c)"
    "\<forall>a<length (iq_chans c). iq_chans c3 ! a
       = (if a \<in> snd ` set (callbacks c) then (iq_chans c ! a)\<lparr>closed := True\<rparr>
          else iq_chans c ! a)"
    by simp_all
  have lock: "Lock (c\<lparr>decoder := snd (nextStartElement_loop (decoder c))\<rparr>) = (Inr (), ?c2)"
    using assms(2) by (simp add: Lock_def)
  have r: "read D c = (Inr (), Close c3)"
    unfolding read_None [OF assms(1)] lock using cl L(1) by simp
  have f: "wire c3 = wire c \<and> closing c3 = closing c \<and> tcp_closed c3 = tcp_closed c
      \<and> callbacks c3 = callbacks c \<and> stanza_chans c3 = stanza_chans c
      \<and> trace c3 = trace c @ [EvLock] @ map (\<lambda>kv. EvChanClose (snd kv)) (callbacks c)"
    by (subst L(2), simp)+
  show ?thesis
    using r L(3,4) f by (intro exI [of _ c3]) simp
qed

theorem read_end_of_stream_witness:
  "fst (read decode0 connEnd) = Inr ()
   \<and> closed (iq_chans (snd (read decode0 connEnd)) ! 0)
   \<and> closing (snd (read decode0 connEnd))
   \<and> wire (snd (read decode0 connEnd)) = wire connIQ @ ''</stream:stream>''
   \<and> fst (read decode0 connIQ) = Inr ()
   \<and> closed (iq_chans (snd (read decode0 connIQ)) ! 0)"
proof -
  have e1: "fst (nextStartElement_loop (decoder connEnd)) = (None, None)"
    by (simp add: connEnd_def nsStream_def)
  have e2: "fst (nextStartElement_loop (decoder connIQ)) = (None, Some DecoderError)"
    by (simp add: connIQ_eq conn0_def newConnection_def)
  have m: "\<not> mu connEnd" "\<not> mu connIQ"
    by (simp_all add: connEnd_def connIQ_eq conn0_def newConnection_def)
  have d: "distinct (map snd (callbacks connEnd))" "distinct (map snd (callbacks connIQ))"
    by (simp_all add: connEnd_def connIQ_eq)
  have o: "\<forall>ch\<in>snd ` set (callbacks connEnd).
             ch < length (iq_chans connEnd) \<and> \<not> closed (iq_chans connEnd ! ch)"
    "\<forall>ch\<in>snd ` set (callbacks connIQ).
             ch < length (iq_chans connIQ) \<and> \<not> closed (iq_chans connIQ ! ch)"
    by (simp_all add: connEnd_def connIQ_eq make_chan_def)
  from read_end_of_stream [OF e1 m(1) d(1) o(1), of decode0]
  obtain c1 where c1: "read decode0 connEnd = (Inr (), Close c1)"
    "\<forall>a<length (iq_chans connEnd). iq_chans c1 ! a
       = (if a \<in> snd ` set (callbacks connEnd) then (iq_chans connEnd ! a)\<lparr>closed := True\<rparr>
          else iq_chans connEnd ! a)"
    "wire c1 = wire connEnd" "closing c1 = closing connEnd"
    by blast
  from read_end_of_stream [OF e2 m(2) d(2) o(2), of decode0]
  obtain c2 where c2: "read decode0 connIQ = (Inr (), Close c2)"
    "\<forall>a<length (iq_chans connIQ). iq_chans c2 ! a
       = (if a \<in> snd ` set (callbacks connIQ) then (iq_chans connIQ ! a)\<lparr>closed := True\<rparr>
          else iq_chans connIQ ! a)"
    by blast
  have l: "length (iq_chans connEnd) = 1" "length (iq_chans connIQ) = 1"
    "callbacks connEnd = [(''0'', 0)]" "callbacks connIQ = [(''0'', 0)]"
    "wire connEnd = wire connIQ" "\<not> closing connEnd"
    by (simp_all add: connEnd_def connIQ_eq conn0_def newConnection_def)
  from c1(2) c2(2) have "closed (iq_chans c1 ! 0)" "closed (iq_chans c2 ! 0)"
    by (simp_all add: l)
  with c1 c2 l show ?thesis
    by (simp add: Close_def Write_def)
qed

text \<open>
  The two properties hold of a new connection and are kept by \<open>SendIQ\<close> and by the
  router's dispatch.  From a state that has them, with the mutex free, the router never
  blocks or panics, whatever the peer sends and whatever \<open>DecodeElement\<close> does: it runs to
  the end of the stream and returns with \<open>closing\<close> set and every channel still
  registered closed.
\<close>

lemma cb_inv_newConnection: "cb_inv (newConnection u h p ts)"
  by (simp add: cb_inv_def newConnection_def)

lemma update_snd_subset: "snd ` set (AList.update k v al) \<subseteq> insert v (snd ` set al)"
  by (induction al) (auto split: if_splits)

lemma update_snd_distinct:
  "distinct (map snd al) \<Longrightarrow> v \<notin> snd ` set al \<Longrightarrow> distinct (map snd (AList.update k v al))"
proof (induction al)
  case Nil
  then show ?case by simp
next
  case (Cons kv al)
  obtain k' v' where kv: "kv = (k', v')" by (cases kv)
  show ?case
  proof (cases "k' = k")
    case True
    with Cons.prems kv show ?thesis by (auto simp: image_iff)
  next
    case False
    from Cons have d: "distinct (map snd (AList.update k v al))" by simp
    have "v' \<notin> snd ` set (AList.update k v al)"
      using update_snd_subset [of k v al] Cons.prems kv by (auto simp: image_iff)
    with d False kv show ?thesis by (simp add: image_iff)
  qed
qed

lemma cb_inv_SendIQ:
  assumes "cb_inv c"
  shows "cb_inv (snd (SendIQ to typ v c))"
proof (cases "mu c")
  case True
  then have "snd (SendIQ to typ v c) = c\<lparr>cookie := cookie c + 1, iq_chans := iq_chans c @ [make_chan 1]\<rparr>"
    by (simp add: SendIQ_def getCookie_def Lock_def Let_def)
  with assms show ?thesis
    by (auto simp: cb_inv_def nth_append)
next
  case False
  let ?k = "decimal (unat (cookie c))" and ?r = "length (iq_chans c)"
  let ?c' = "snd (SendIQ to typ v c)"
  from False have cb: "callbacks ?c' = AList.update ?k ?r (callbacks c)"
    and ch: "iq_chans ?c' = iq_chans c @ [make_chan 1]"
    by (simp_all add: SendIQ_def getCookie_def Lock_def Unlock_def Let_def Write_def Encode_def
        split: option.splits)
  from assms have fresh: "?r \<notin> snd ` set (callbacks c)"
    by (auto simp: cb_inv_def)
  have 1: "distinct (map fst (callbacks ?c'))"
    using assms by (simp add: cb cb_inv_def distinct_update)
  have 2: "distinct (map snd (callbacks ?c'))"
    using assms fresh by (simp add: cb cb_inv_def update_snd_distinct)
  have 3: "ch < length (iq_chans ?c') \<and> \<not> closed (iq_chans ?c' ! ch) \<and> ready (iq_chans ?c' ! ch)"
    if "ch \<in> snd ` set (callbacks ?c')" for ch
  proof -
    from that update_snd_subset [of ?k ?r "callbacks c"]
    have "ch = ?r \<or> ch \<in> snd ` set (callbacks c)" by (auto simp: cb)
    then show ?thesis
    proof
      assume "ch = ?r"
      then show ?thesis by (simp add: ch make_chan_def ready_def)
    next
      assume "ch \<in> snd ` set (callbacks c)"
      with assms show ?thesis by (auto simp: cb_inv_def ch nth_append)
    qed
  qed
  from 1 2 3 show ?thesis by (auto simp: cb_inv_def)
qed

lemma delete_snd_notin:
  "distinct (map fst al) \<Longrightarrow> distinct (map snd al) \<Longrightarrow> map_of al k = Some v
   \<Longrightarrow> v \<notin> snd ` set (AList.delete k al)"
proof (induction al)
  case Nil
  then show ?case by simp
next
  case (Cons kv al)
  obtain k' v' where kv: "kv = (k', v')" by (cases kv)
  show ?case
  proof (cases "k' = k")
    case True
    with Cons.prems kv have "v' = v" "k \<notin> fst ` set al" "v \<notin> snd ` set al" by (auto simp: image_iff)
    then have "AList.delete k al = al"
      by simp
    with True kv \<open>v \<notin> snd ` set al\<close> show ?thesis by simp
  next
    case False
    with Cons.prems kv have m: "map_of al k = Some v" by simp
    then have "(k, v) \<in> set al" by (rule map_of_SomeD)
    with Cons.prems kv have "v' \<noteq> v" by (auto simp: image_iff)
    moreover from Cons m kv have "v \<notin> snd ` set (AList.delete k al)" by simp
    ultimately show ?thesis using False kv by (simp add: image_iff)
  qed
qed

lemma delete_snd_subset: "snd ` set (AList.delete k al) \<subseteq> snd ` set al"
  by (auto simp: AList.delete_eq)

lemma delete_snd_distinct: "distinct (map snd al) \<Longrightarrow> distinct (map snd (AList.delete k al))"
  by (induction al) (auto simp: image_iff AList.delete_eq)

lemma send_loop_closed:
  assumes "\<forall>a\<in>set chs. a < length h \<longrightarrow> \<not> closed (h ! a)" and "a < length h"
  shows "closed (snd (send_loop chs st h) ! a) = closed (h ! a)"
proof -
  have "closed ((deliver st ^^ n) k) = closed k" for n k
    by (induction n) (simp_all add: closed_deliver)
  with send_loop_result [OF assms(1), of st] assms(2) show ?thesis by simp
qed

lemma subscribers_send_ok:
  assumes "subs_open c"
  shows "fst (subscribers_send st c) = Inr ()"
    and "subs_open (snd (subscribers_send st c))"
    and "snd (subscribers_send st c) = c\<lparr>stanza_chans := stanza_chans (snd (subscribers_send st c))\<rparr>"
proof -
  let ?r = "send_loop (subscribers c) st (stanza_chans c)"
  from assms have o: "\<forall>a\<in>set (subscribers c). a < length (stanza_chans c) \<longrightarrow> \<not> closed (stanza_chans c ! a)"
    by (simp add: subs_open_def)
  have s: "subscribers_send st c = (fst ?r, c\<lparr>stanza_chans := snd ?r\<rparr>)"
    by (simp add: subscribers_send_def split: prod.splits)
  note L = send_loop_result [OF o, of st]
  show "fst (subscribers_send st c) = Inr ()" using L by (simp add: s)
  show "subs_open (snd (subscribers_send st c))"
    using o L send_loop_closed [OF o, of _ st] by (auto simp: s subs_open_def)
  show "snd (subscribers_send st c) = c\<lparr>stanza_chans := stanza_chans (snd (subscribers_send st c))\<rparr>"
    by (simp add: s)
qed


lemma dispatch_ok:
  assumes "cb_inv c" and "\<not> mu c" and "subs_open c"
  shows "fst (dispatch nv c) = Inr ()"
    and "cb_inv (snd (dispatch nv c))" and "\<not> mu (snd (dispatch nv c))"
    and "subs_open (snd (dispatch nv c))"
    and "closing (snd (dispatch nv c)) = closing c"
proof -
  let ?c' = "snd (dispatch nv c)"
  note S = subscribers_send_ok [OF assms(3), of nv]
  have fan: "fst (subscribers_send nv c) = Inr () \<and> cb_inv (snd (subscribers_send nv c))
      \<and> \<not> mu (snd (subscribers_send nv c)) \<and> subs_open (snd (subscribers_send nv c))
      \<and> closing (snd (subscribers_send nv c)) = closing c"
  proof -
    have "callbacks (snd (subscribers_send nv c)) = callbacks c"
      "iq_chans (snd (subscribers_send nv c)) = iq_chans c"
      "mu (snd (subscribers_send nv c)) = mu c"
      "closing (snd (subscribers_send nv c)) = closing c"
      by (simp_all add: subscribers_send_def split: prod.splits)
    with assms S show ?thesis by (simp add: cb_inv_def)
  qed
  have all: "fst (dispatch nv c) = Inr () \<and> cb_inv ?c' \<and> \<not> mu ?c' \<and> subs_open ?c'
      \<and> closing ?c' = closing c"
  proof (cases "\<exists>iq. nv = IQS iq \<and> (Type (IHeader iq) = ''result'' \<or> Type (IHeader iq) = ''error'')")
    case False
    then have "dispatch nv c = subscribers_send nv c"
      by (auto simp: dispatch_def split: Stanza.splits)
    with fan show ?thesis by simp
  next
    case True
    then obtain iq where nv: "nv = IQS iq"
      and ty: "Type (IHeader iq) = ''result'' \<or> Type (IHeader iq) = ''error''"
      by blast
    show ?thesis
    proof (cases "map_of (callbacks c) (Id' (IHeader iq))")
      case None
      with nv ty assms(2) have "dispatch nv c = (Inr (), c\<lparr>trace := trace c @ [EvLock, EvUnlock]\<rparr>)"
        by (auto simp: dispatch_def Lock_def Unlock_def ID_def)
      with assms show ?thesis by (simp add: cb_inv_def subs_open_def)
    next
      case (Some ch)
      then have "(Id' (IHeader iq), ch) \<in> set (callbacks c)" by (rule map_of_SomeD)
      then have chin: "ch \<in> snd ` set (callbacks c)" by force
      with assms(1) have ch: "ch < length (iq_chans c)" "\<not> closed (iq_chans c ! ch)" "ready (iq_chans c ! ch)"
        by (auto simp: cb_inv_def)
      let ?h = "(iq_chans c)[ch := deliver iq (iq_chans c ! ch)]"
      let ?cb = "AList.delete (Id' (IHeader iq)) (callbacks c)"
      have d: "dispatch nv c = (Inr (), c\<lparr>iq_chans := ?h, callbacks := ?cb,
           trace := trace c @ [EvLock, EvChanSend ch iq, EvMapDelete (Id' (IHeader iq)), EvUnlock]\<rparr>)"
        using nv ty assms(2) Some ch
        by (auto simp: dispatch_def Lock_def Unlock_def ID_def Let_def chan_send_def)
      have notin: "ch \<notin> snd ` set ?cb"
        using assms(1) Some by (intro delete_snd_notin) (simp_all add: cb_inv_def)
      have "cb_inv (c\<lparr>iq_chans := ?h, callbacks := ?cb,
           trace := trace c @ [EvLock, EvChanSend ch iq, EvMapDelete (Id' (IHeader iq)), EvUnlock]\<rparr>)"
        unfolding cb_inv_def
      proof (intro conjI ballI)
        show "distinct (map fst (callbacks (c\<lparr>iq_chans := ?h, callbacks := ?cb,
           trace := trace c @ [EvLock, EvChanSend ch iq, EvMapDelete (Id' (IHeader iq)), EvUnlock]\<rparr>)))"
          using assms(1) by (simp add: cb_inv_def distinct_delete)
        show "distinct (map snd (callbacks (c\<lparr>iq_chans := ?h, callbacks := ?cb,
           trace := trace c @ [EvLock, EvChanSend ch iq, EvMapDelete (Id' (IHeader iq)), EvUnlock]\<rparr>)))"
          using assms(1) by (simp add: cb_inv_def delete_snd_distinct)
      next
        fix a
        assume "a \<in> snd ` set (callbacks (c\<lparr>iq_chans := ?h, callbacks := ?cb,
           trace := trace c @ [EvLock, EvChanSend ch iq, EvMapDelete (Id' (IHeader iq)), EvUnlock]\<rparr>))"
        then have a: "a \<in> snd ` set ?cb" by simp
        with notin have "a \<noteq> ch" by auto
        moreover from a delete_snd_subset [of "Id' (IHeader iq)" "callbacks c"]
        have "a \<in> snd ` set (callbacks c)" by auto
        ultimately show "a < length (iq_chans (c\<lparr>iq_chans := ?h, callbacks := ?cb,
           trace := trace c @ [EvLock, EvChanSend ch iq, EvMapDelete (Id' (IHeader iq)), EvUnlock]\<rparr>))"
          "\<not> closed (iq_chans (c\<lparr>iq_chans := ?h, callbacks := ?cb,
           trace := trace c @ [EvLock, EvChanSend ch iq, EvMapDelete (Id' (IHeader iq)), EvUnlock]\<rparr>) ! a)"
          "ready (iq_chans (c\<lparr>iq_chans := ?h, callbacks := ?cb,
           trace := trace c @ [EvLock, EvChanSend ch iq, EvMapDelete (Id' (IHeader iq)), EvUnlock]\<rparr>) ! a)"
          using assms(1) by (auto simp: cb_inv_def)
      qed
      with d assms show ?thesis by (simp add: subs_open_def)
    qed
  qed
  then show "fst (dispatch nv c) = Inr ()" "cb_inv ?c'" "\<not> mu ?c'" "subs_open ?c'"
    "closing ?c' = closing c"
    by simp_all
qed


lemma read_Some:
  assumes "nextStartElement c = ((Some t, e), c1)"
    and "D (new_stanza t) t (decoder c1) = (nv', n)"
  shows "read D c =
     (case dispatch nv' (c1\<lparr>decoder := drop n (decoder c1)\<rparr>) of
        (Inl f, c3) \<Rightarrow> (Inl f, c3)
      | (Inr u, c3) \<Rightarrow> read D c3)"
  using assms by (subst read.simps) (simp add: Let_def)

lemma nextStartElement_fields:
  "nextStartElement c = (r, c1) \<Longrightarrow> c1 = c\<lparr>decoder := decoder c1\<rparr>"
  by (auto simp: nextStartElement_def split: prod.splits)

lemma read_run:
  assumes "cb_inv c" and "\<not> mu c" and "subs_open c"
  shows "fst (read D c) = Inr ()
    \<and> closing (snd (read D c))
    \<and> (\<forall>ch\<in>snd ` set (callbacks (snd (read D c))). closed (iq_chans (snd (read D c)) ! ch))"
  using assms
proof (induction D c rule: read.induct)
  case (1 D c)
  obtain st e c1 where n: "nextStartElement c = ((st, e), c1)"
    by (cases "nextStartElement c") auto
  from nextStartElement_fields [OF n] have c1: "c1 = c\<lparr>decoder := decoder c1\<rparr>" .
  show ?case
  proof (cases st)
    case None
    with n have e: "fst (nextStartElement_loop (decoder c)) = (None, e)"
      by (auto simp: nextStartElement_def split: prod.splits)
    let ?c2 = "c\<lparr>decoder := snd (nextStartElement_loop (decoder c)), mu := True,
                  trace := trace c @ [EvLock]\<rparr>"
    from "1.prems"(1) have d: "distinct (map snd (callbacks c))"
      and pre: "\<forall>ch\<in>snd ` set (callbacks c).
               ch < length (iq_chans ?c2) \<and> \<not> closed (iq_chans ?c2 ! ch)"
      by (auto simp: cb_inv_def)
    obtain r c3 where cl: "close_loop (callbacks c) ?c2 = (r, c3)"
      by (cases "close_loop (callbacks c) ?c2")
    from close_loop_result [OF d pre] cl
    have L: "r = Inr ()"
      "c3 = ?c2\<lparr>iq_chans := iq_chans c3,
                trace := trace ?c2 @ map (\<lambda>kv. EvChanClose (snd kv)) (callbacks c)\<rparr>"
      "\<forall>a<length (iq_chans c). iq_chans c3 ! a
         = (if a \<in> snd ` set (callbacks c) then (iq_chans c ! a)\<lparr>closed := True\<rparr>
            else iq_chans c ! a)"
      by simp_all
    have lock: "Lock (c\<lparr>decoder := snd (nextStartElement_loop (decoder c))\<rparr>) = (Inr (), ?c2)"
      using "1.prems"(2) by (simp add: Lock_def)
    have r: "read D c = (Inr (), Close c3)"
      unfolding read_None [OF e] lock using cl L(1) by simp
    have cb: "callbacks c3 = callbacks c"
      by (subst L(2)) simp
    have "closed (iq_chans c3 ! ch)" if "ch \<in> snd ` set (callbacks c)" for ch
    proof -
      from that "1.prems"(1) have "ch < length (iq_chans c)" by (auto simp: cb_inv_def)
      with L(3) that show ?thesis by simp
    qed
    with r cb show ?thesis
      by (simp add: Close_def Write_def)
  next
    case (Some t)
    obtain nv' k where dec: "D (new_stanza t) t (decoder c1) = (nv', k)"
      by (cases "D (new_stanza t) t (decoder c1)")
    let ?c2 = "c1\<lparr>decoder := drop k (decoder c1)\<rparr>"
    have inv2: "cb_inv ?c2" "\<not> mu ?c2" "subs_open ?c2"
      using "1.prems" by (subst c1, simp add: cb_inv_def subs_open_def)+
    obtain r c3 where dp: "dispatch nv' ?c2 = (r, c3)"
      by (cases "dispatch nv' ?c2")
    from dispatch_ok [OF inv2, of nv'] dp
    have ok: "r = Inr ()" "cb_inv c3" "\<not> mu c3" "subs_open c3"
      by simp_all
    have rd: "read D c = read D c3"
      using read_Some [where D = D, OF n [unfolded Some] dec] dp ok(1) by simp
    have "fst (read D c3) = Inr ()
      \<and> closing (snd (read D c3))
      \<and> (\<forall>ch\<in>snd ` set (callbacks (snd (read D c3))). closed (iq_chans (snd (read D c3)) ! ch))"
      by (rule "1.IH" [OF n [symmetric] refl Some refl dec [symmetric] dp [symmetric]
            ok(1) ok(2) ok(3) ok(4)])
    then show ?thesis by (simp add: rd)
  qed
qed

subsection \<open>SendIQ, SendIQReply and the roster push\<close>

lemma SendIQReply_wire:
  "wire (SendIQReply to typ i v c)
     = wire c @ iq_start (if to = [] then [] else ''to='' @ sq (xmlEscape to))
                  (xmlEscape (jid c)) (xmlEscape typ) i
         @ (case v of None \<Rightarrow> [] | Some bs \<Rightarrow> bs) @ ''</iq>''"
  by (simp add: SendIQReply_def Let_def Write_def Encode_def split: option.splits)

lemma SendIQ_wire:
  assumes "\<not> mu c"
  shows "fst (SendIQ to typ v c) = Inr (length (iq_chans c), decimal (unat (cookie c)))
    \<and> wire (snd (SendIQ to typ v c))
     = wire c @ iq_start (if to = [] then [] else ''to='' @ sq (xmlEscape to))
                  (xmlEscape (jid c)) (xmlEscape typ) (decimal (unat (cookie c)))
         @ (case v of None \<Rightarrow> [] | Some bs \<Rightarrow> bs) @ ''</iq>''"
  using assms
  by (simp add: SendIQ_def getCookie_def Lock_def Unlock_def Let_def Write_def Encode_def
      split: option.splits)

lemma apos_notin_entity: "apos \<notin> set (entity_of ch)"
  by (simp add: entity_of_def apos_def quot_def)

lemma apos_notin_xmlEscape: "apos \<notin> set (xmlEscape s)"
  by (induction s) (simp_all add: xmlEscape_replace replace_specials_def apos_notin_entity)

lemma apos_notin_decimal: "apos \<notin> set (decimal n)"
proof (induction n rule: decimal.induct)
  case (1 n)
  have d: "apos \<noteq> digit_char k" if "k < 10" for k
  proof -
    from that have "k \<in> {0, 1, 2, 3, 4, 5, 6, 7, 8, 9}" by auto
    then show ?thesis by (auto simp: digit_char_def apos_def)
  qed
  show ?case
  proof (cases "n < 10")
    case True
    then show ?thesis by (subst decimal.simps) (simp add: d)
  next
    case False
    then show ?thesis using "1.IH" by (subst decimal.simps) (simp add: d)
  qed
qed

lemma attrs_scan_value:
  "apos \<notin> set s \<Longrightarrow>
   attrs_scan InValue n v (s @ apos # r)
     = map_option (Cons (n, v @ s)) (attrs_scan Between [] [] r)"
  by (induction s arbitrary: v) auto

lemma attrs_scan_sq:
  "apos \<notin> set s \<Longrightarrow>
   attrs_scan AfterEq n [] (sq s @ r) = map_option (Cons (n, s)) (attrs_scan Between [] [] r)"
  using attrs_scan_value [of s n "[]" r] by (simp add: sq_def)

lemma iq_attrs_iq_start:
  assumes "apos \<notin> set i"
  shows "iq_attrs (iq_start (if to = [] then [] else ''to='' @ sq (xmlEscape to))
                     (xmlEscape j) (xmlEscape t) i @ rest)
           = Some ((if to = [] then [] else [(''to'', xmlEscape to)])
                   @ [(''from'', xmlEscape j), (''type'', xmlEscape t), (''id'', i)])"
  using assms
  by (simp add: iq_attrs_def iq_start_def attrs_scan_sq apos_notin_xmlEscape)

text \<open>
  The attributes of the emitted start tag.  \<open>SendIQ\<close> (the mutex being free) emits a start tag whose
  attributes are \<open>from\<close>, \<open>type\<close> and \<open>id\<close>, preceded by \<open>to\<close> with the escaped value exactly
  when the argument \<open>to\<close> is not empty; so does \<open>SendIQReply\<close> when its argument \<open>id\<close> has
  no apostrophe.
\<close>

lemma SendIQ_attrs:
  assumes "\<not> mu c"
  shows "iq_attrs (emitted c (snd (SendIQ to typ v c)))
           = Some ((if to = [] then [] else [(''to'', xmlEscape to)])
                   @ [(''from'', xmlEscape (jid c)), (''type'', xmlEscape typ),
                      (''id'', decimal (unat (cookie c)))])"
  using SendIQ_wire [OF assms, of "to" "typ" v]
  by (simp add: emitted_def iq_attrs_iq_start apos_notin_decimal)

lemma SendIQReply_attrs:
  assumes "apos \<notin> set i"
  shows "iq_attrs (emitted c (SendIQReply to typ i v c))
           = Some ((if to = [] then [] else [(''to'', xmlEscape to)])
                   @ [(''from'', xmlEscape (jid c)), (''type'', xmlEscape typ), (''id'', i)])"
  using assms by (simp add: emitted_def SendIQReply_wire iq_attrs_iq_start)

text \<open>
  C9 at the input where the code departs from it.  \<open>SendIQReply\<close> writes its argument
  \<open>id\<close> between apostrophes without escaping it.  With an empty \<open>to\<close> and the id
  \<^verbatim>\<open>x' to='evil\<close> the start tag it emits has a \<open>to\<close> attribute.
\<close>

theorem SendIQReply_id_injection:
  "emitted connJ (SendIQReply [] ''result'' ''x' to='evil'' None connJ)
     = ''<iq  from='alice@example.org/abc' type='result' id='x' to='evil'></iq>''
   \<and> iq_attrs (emitted connJ (SendIQReply [] ''result'' ''x' to='evil'' None connJ))
     = Some [(''from'', ''alice@example.org/abc''), (''type'', ''result''), (''id'', ''x''),
             (''to'', ''evil'')]"
  by (simp add: emitted_def SendIQReply_wire iq_start_def sq_def connJ_def conn0_def
      newConnection_def xmlEscape_replace replace_specials_def entity_of_def apos_def quot_def
      iq_attrs_def)

text \<open>
  C10.  For every IQ stanza the roster layer receives whose query element is in the
  namespace \<open>jabber:iq:roster\<close> and whose type is \<open>set\<close>, the loop body calls
  \<open>SendIQReply\<close> with an empty \<open>to\<close>, the type \<open>result\<close>, the id of the stanza and no
  payload, which writes \<^verbatim>\<open><iq  from='JID' type='result' id='ID'></iq>\<close> with the id as it
  is; the loop then goes on with the next stanza.
\<close>

theorem roster_push_reply:
  assumes "Space (Query t) = ''jabber:iq:roster''" and "Type (IHeader t) = ''set''"
  shows "read6121_body (IQS t) c
           = (Inr (), SendIQReply [] ''result'' (Id' (IHeader t)) None c)
    \<and> emitted c (snd (read6121_body (IQS t) c))
        = ''<iq  from='' @ sq (xmlEscape (jid c)) @ '' type='' @ sq ''result''
            @ '' id='' @ sq (Id' (IHeader t)) @ ''></iq>''
    \<and> read6121 (IQS t # rest) c
        = read6121 rest (SendIQReply [] ''result'' (Id' (IHeader t)) None c)"
proof -
  have b: "read6121_body (IQS t) c
             = (Inr (), SendIQReply [] ''result'' (Id' (IHeader t)) None c)"
    using assms by (simp add: read6121_body_def ID_def)
  have "xmlEscape ''result'' = ''result''"
    by (simp add: xmlEscape_replace replace_specials_def entity_of_def apos_def quot_def)
  then have "emitted c (SendIQReply [] ''result'' (Id' (IHeader t)) None c)
        = ''<iq  from='' @ sq (xmlEscape (jid c)) @ '' type='' @ sq ''result''
            @ '' id='' @ sq (Id' (IHeader t)) @ ''></iq>''"
    by (simp add: emitted_def SendIQReply_wire iq_start_def)
  with b show ?thesis by simp
qed

theorem roster_push_reply_witness:
  "Space (Query push0) = ''jabber:iq:roster'' \<and> Type (IHeader push0) = ''set''
   \<and> fst (read6121_body (IQS push0) connJ) = Inr ()
   \<and> emitted connJ (snd (read6121_body (IQS push0) connJ))
       = ''<iq  from='alice@example.org/abc' type='result' id='push-1'></iq>''"
proof -
  have p: "Space (Query push0) = ''jabber:iq:roster''" "Type (IHeader push0) = ''set''"
    by (simp_all add: push0_def)
  have x: "xmlEscape (jid connJ) = ''alice@example.org/abc''"
    by (simp add: connJ_def xmlEscape_replace replace_specials_def entity_of_def apos_def
        quot_def)
  note T = roster_push_reply [OF p, of connJ "[]"]
  have b: "fst (read6121_body (IQS push0) connJ) = Inr ()"
    using T by simp
  have e: "emitted connJ (snd (read6121_body (IQS push0) connJ))
        = ''<iq  from='' @ sq (xmlEscape (jid connJ)) @ '' type='' @ sq ''result''
            @ '' id='' @ sq (Id' (IHeader push0)) @ ''></iq>''"
    using T by blast
  show ?thesis
    unfolding e using p b x by (simp add: push0_def sq_def apos_def)
qed

end
